theory Spec2Isabelle
  imports Main "HOL-Library.Word"
begin

section \<open>micro-arena.h: a first-fit allocator over a fixed buffer\<close>

text \<open>
  The development follows \<^verbatim>\<open>src/micro-arena.h\<close>. Addresses (\<^verbatim>\<open>char*\<close>, \<^verbatim>\<open>void*\<close>)
  and sizes (\<^verbatim>\<open>size_t\<close>) are 64-bit words, so pointer and size arithmetic wraps as it
  does on an LP64 machine; the null pointer is the address \<open>0\<close>.
\<close>

subsection \<open>Types\<close>

type_synonym addr = "64 word"
type_synonym size_t = "64 word"

definition NULL :: addr where
  "NULL = 0"

text \<open>The two configuration macros, at their default values.\<close>

definition MICRO_ARENA_STACK_MEM_SIZE :: size_t where
  "MICRO_ARENA_STACK_MEM_SIZE = 4096"

definition MICRO_ARENA_MAX_NUM_CHUNKS :: nat where
  "MICRO_ARENA_MAX_NUM_CHUNKS = 1024"

text \<open>\<^verbatim>\<open>MicroArenaChunk\<close>: the field \<^verbatim>\<open>size\<close> is called \<open>size_c\<close> here.\<close>

record MicroArenaChunk =
  start :: addr
  size_c :: size_t

text \<open>
  \<^verbatim>\<open>MicroArenaChunkList\<close> is an array of \<^verbatim>\<open>MICRO_ARENA_MAX_NUM_CHUNKS\<close> chunks with a
  count \<^verbatim>\<open>len\<close>. No function of the header reads a slot at or beyond \<^verbatim>\<open>len\<close>, and
  \<^verbatim>\<open>reset\<close> only sets \<^verbatim>\<open>len\<close> to zero, so the directory is represented by the list of
  its first \<^verbatim>\<open>len\<close> slots: \<^verbatim>\<open>len\<close> is the length of the list and \<^verbatim>\<open>chunks[i]\<close> is
  \<open>cl ! i\<close>. A pointer to a slot of the array (\<^verbatim>\<open>MicroArenaChunk*\<close>) is the index of the
  slot, and the null slot pointer is \<open>None\<close>. The count of a directory is at most the
  number of its slots, far below the range of \<^verbatim>\<open>size_t\<close>, so \<^verbatim>\<open>len + 1\<close> does not wrap
  and is a sum of natural numbers here.
\<close>

type_synonym MicroArenaChunkList = "MicroArenaChunk list"

text \<open>
  \<^verbatim>\<open>MicroArena\<close>: the buffer \<^verbatim>\<open>mem\<close> and the two directories. \<open>mem_addr\<close> is the
  address \<^verbatim>\<open>&ma->mem\<close> at which the buffer of this arena lives.
\<close>

record MicroArena =
  mem_addr :: addr
  mem :: "8 word list"
  free_chunks :: MicroArenaChunkList
  used_chunks :: MicroArenaChunkList

subsection \<open>The chunk directory\<close>

text \<open>
  Each directory function starts with a guard on a null directory pointer. The function
  on the directory itself comes first (prefix \<open>chunk_list_\<close>), then the function of the
  header on a directory pointer (\<open>None\<close> is the null pointer). The arena operations pass
  \<^verbatim>\<open>&ma->free_chunks\<close> and \<^verbatim>\<open>&ma->used_chunks\<close>, which are never null.
\<close>

definition chunk_list_add ::
  "MicroArenaChunkList \<Rightarrow> addr \<Rightarrow> size_t \<Rightarrow> nat option \<times> MicroArenaChunkList" where
  "chunk_list_add chunk_list st sz =
     (if length chunk_list + 1 \<ge> MICRO_ARENA_MAX_NUM_CHUNKS then (None, chunk_list)
      else (Some (length chunk_list), chunk_list @ [\<lparr>start = st, size_c = sz\<rparr>]))"

definition micro_arena_chunk_list_add ::
  "MicroArenaChunkList option \<Rightarrow> addr \<Rightarrow> size_t \<Rightarrow> nat option \<times> MicroArenaChunkList option" where
  "micro_arena_chunk_list_add chunk_list st sz =
     (case chunk_list of
        None \<Rightarrow> (None, None)
      | Some cl \<Rightarrow> (case chunk_list_add cl st sz of (r, cl') \<Rightarrow> (r, Some cl')))"

text \<open>
  \<^verbatim>\<open>remove\<close>: the \<^verbatim>\<open>while\<close> loop finds the first index whose \<^verbatim>\<open>start\<close> matches
  (\<open>chunk_list_find\<close>, which returns \<^verbatim>\<open>len\<close> when there is none); the \<^verbatim>\<open>for\<close> loop
  then moves every later slot one place down and \<^verbatim>\<open>len\<close> is decremented.
\<close>

function chunk_list_find :: "MicroArenaChunkList \<Rightarrow> addr \<Rightarrow> nat \<Rightarrow> nat" where
  "chunk_list_find chunk_list st i =
     (if i < length chunk_list
      then (if start (chunk_list ! i) = st then i else chunk_list_find chunk_list st (i + 1))
      else i)"
  by pat_completeness auto
termination
  by (relation "measure (\<lambda>(cl, st, i). length cl - i)") auto

definition chunk_list_remove :: "MicroArenaChunkList \<Rightarrow> addr \<Rightarrow> MicroArenaChunkList" where
  "chunk_list_remove chunk_list st =
     (let i = chunk_list_find chunk_list st 0
      in if i \<ge> length chunk_list then chunk_list
         else take i chunk_list @ drop (i + 1) chunk_list)"

definition micro_arena_chunk_list_remove ::
  "MicroArenaChunkList option \<Rightarrow> addr \<Rightarrow> MicroArenaChunkList option" where
  "micro_arena_chunk_list_remove chunk_list st =
     (case chunk_list of None \<Rightarrow> None | Some cl \<Rightarrow> Some (chunk_list_remove cl st))"

function chunk_list_get_from :: "MicroArenaChunkList \<Rightarrow> addr \<Rightarrow> nat \<Rightarrow> nat option" where
  "chunk_list_get_from chunk_list st i =
     (if i < length chunk_list
      then (if start (chunk_list ! i) = st then Some i
            else chunk_list_get_from chunk_list st (i + 1))
      else None)"
  by pat_completeness auto
termination
  by (relation "measure (\<lambda>(cl, st, i). length cl - i)") auto

definition chunk_list_get :: "MicroArenaChunkList \<Rightarrow> addr \<Rightarrow> nat option" where
  "chunk_list_get chunk_list st = chunk_list_get_from chunk_list st 0"

definition micro_arena_chunk_list_get ::
  "MicroArenaChunkList option \<Rightarrow> addr \<Rightarrow> nat option" where
  "micro_arena_chunk_list_get chunk_list st =
     (case chunk_list of None \<Rightarrow> None | Some cl \<Rightarrow> chunk_list_get cl st)"

definition chunk_list_reset :: "MicroArenaChunkList \<Rightarrow> MicroArenaChunkList" where
  "chunk_list_reset chunk_list = []"

definition micro_arena_chunk_list_reset ::
  "MicroArenaChunkList option \<Rightarrow> MicroArenaChunkList option" where
  "micro_arena_chunk_list_reset chunk_list =
     (case chunk_list of None \<Rightarrow> None | Some cl \<Rightarrow> Some (chunk_list_reset cl))"

subsection \<open>The arena\<close>

text \<open>
  As for the directory, each operation is given on the arena itself (prefix \<open>arena_\<close>)
  and then, under the header's name, on an arena pointer with its null guard. An
  operation returns its C result together with the arena after the call.
\<close>

definition arena_init :: "MicroArena \<Rightarrow> MicroArena" where
  "arena_init ma =
     (let ma1 = ma\<lparr>free_chunks := chunk_list_reset (free_chunks ma)\<rparr>;
          ma2 = ma1\<lparr>used_chunks := chunk_list_reset (used_chunks ma1)\<rparr>
      in ma2\<lparr>free_chunks :=
               snd (chunk_list_add (free_chunks ma2) (mem_addr ma2) MICRO_ARENA_STACK_MEM_SIZE)\<rparr>)"

definition micro_arena_init :: "MicroArena option \<Rightarrow> MicroArena option" where
  "micro_arena_init ma = (case ma of None \<Rightarrow> None | Some a \<Rightarrow> Some (arena_init a))"

text \<open>
  \<^verbatim>\<open>malloc\<close>: the loop over the free directory, from index \<open>i\<close>. The first entry that
  is large enough ends the loop, by a null result when the used directory takes no new
  entry, and by the split of the free entry otherwise.
\<close>

function arena_malloc_from :: "MicroArena \<Rightarrow> size_t \<Rightarrow> nat \<Rightarrow> addr \<times> MicroArena" where
  "arena_malloc_from ma sz i =
     (if i < length (free_chunks ma)
      then (if size_c (free_chunks ma ! i) < sz then arena_malloc_from ma sz (i + 1)
            else (case chunk_list_add (used_chunks ma) (start (free_chunks ma ! i)) sz of
                    (None, _) \<Rightarrow> (NULL, ma)
                  | (Some used_chunk, used') \<Rightarrow>
                      (let ma1 = ma\<lparr>used_chunks := used'\<rparr>;
                           c = free_chunks ma1 ! i;
                           ma2 = ma1\<lparr>free_chunks := (free_chunks ma1)[i := c\<lparr>start := start c + sz\<rparr>]\<rparr>;
                           c' = free_chunks ma2 ! i;
                           ma3 = ma2\<lparr>free_chunks := (free_chunks ma2)[i := c'\<lparr>size_c := size_c c' - sz\<rparr>]\<rparr>
                       in (start (used_chunks ma3 ! used_chunk), ma3))))
      else (NULL, ma))"
  by pat_completeness auto
termination
  by (relation "measure (\<lambda>(ma, sz, i). length (free_chunks ma) - i)") auto

definition arena_malloc :: "MicroArena \<Rightarrow> size_t \<Rightarrow> addr \<times> MicroArena" where
  "arena_malloc ma sz = arena_malloc_from ma sz 0"

definition micro_arena_malloc :: "MicroArena option \<Rightarrow> size_t \<Rightarrow> addr \<times> MicroArena option" where
  "micro_arena_malloc ma sz =
     (case ma of
        None \<Rightarrow> (NULL, None)
      | Some a \<Rightarrow> (case arena_malloc a sz of (p, a') \<Rightarrow> (p, Some a')))"

text \<open>
  \<^verbatim>\<open>free\<close>: the loop that looks for the free neighbours of the released chunk keeps
  the last match of each kind; \<open>(after, before)\<close> are the two slot pointers.
\<close>

function free_neighbours ::
  "MicroArenaChunkList \<Rightarrow> MicroArenaChunk \<Rightarrow> nat \<Rightarrow> nat option \<times> nat option
     \<Rightarrow> nat option \<times> nat option" where
  "free_neighbours fl used_chunk i (free_chunk_after, free_chunk_before) =
     (if i < length fl
      then (let a = (if start (fl ! i) = start used_chunk + size_c used_chunk
                     then Some i else free_chunk_after);
                b = (if start used_chunk = start (fl ! i) + size_c (fl ! i)
                     then Some i else free_chunk_before)
            in free_neighbours fl used_chunk (i + 1) (a, b))
      else (free_chunk_after, free_chunk_before))"
  by pat_completeness auto
termination
  by (relation "measure (\<lambda>(fl, u, i, ab). length fl - i)") auto

definition arena_free :: "MicroArena \<Rightarrow> addr \<Rightarrow> MicroArena" where
  "arena_free ma ptr =
     (case chunk_list_get (used_chunks ma) ptr of
        None \<Rightarrow> ma
      | Some u \<Rightarrow>
          (let used_chunk = used_chunks ma ! u
           in case free_neighbours (free_chunks ma) used_chunk 0 (None, None) of
                (Some a, Some b) \<Rightarrow>
                  (let fb = free_chunks ma ! b;
                       fa = free_chunks ma ! a;
                       ma1 = ma\<lparr>free_chunks :=
                                 (free_chunks ma)[b := fb\<lparr>size_c := size_c fb + (size_c used_chunk + size_c fa)\<rparr>]\<rparr>;
                       ma2 = ma1\<lparr>used_chunks := chunk_list_remove (used_chunks ma1) (start used_chunk)\<rparr>
                   in ma2\<lparr>free_chunks := chunk_list_remove (free_chunks ma2) (start (free_chunks ma2 ! b))\<rparr>)
              | (None, Some b) \<Rightarrow>
                  (let fb = free_chunks ma ! b;
                       ma1 = ma\<lparr>free_chunks :=
                                 (free_chunks ma)[b := fb\<lparr>size_c := size_c fb + size_c used_chunk\<rparr>]\<rparr>
                   in ma1\<lparr>used_chunks := chunk_list_remove (used_chunks ma1) (start used_chunk)\<rparr>)
              | (Some a, None) \<Rightarrow>
                  (let fa = free_chunks ma ! a;
                       ma1 = ma\<lparr>free_chunks := (free_chunks ma)[a := fa\<lparr>start := start used_chunk\<rparr>]\<rparr>;
                       fa' = free_chunks ma1 ! a;
                       ma2 = ma1\<lparr>free_chunks :=
                                  (free_chunks ma1)[a := fa'\<lparr>size_c := size_c fa' + size_c used_chunk\<rparr>]\<rparr>
                   in ma2\<lparr>used_chunks := chunk_list_remove (used_chunks ma2) (start used_chunk)\<rparr>)
              | (None, None) \<Rightarrow>
                  (let ma1 = ma\<lparr>free_chunks :=
                                 snd (chunk_list_add (free_chunks ma) (start used_chunk) (size_c used_chunk))\<rparr>
                   in ma1\<lparr>used_chunks := chunk_list_remove (used_chunks ma1) (start used_chunk)\<rparr>)))"

definition micro_arena_free :: "MicroArena option \<Rightarrow> addr \<Rightarrow> MicroArena option" where
  "micro_arena_free ma ptr = (case ma of None \<Rightarrow> None | Some a \<Rightarrow> Some (arena_free a ptr))"

text \<open>
  Bytes of the buffer, read and written through an address. An access outside the
  buffer is undefined in C; here such a store leaves the arena as it is and such a load
  gives \<open>0\<close>. The directories do not depend on the bytes.
\<close>

definition store_byte :: "MicroArena \<Rightarrow> addr \<Rightarrow> 8 word \<Rightarrow> MicroArena" where
  "store_byte ma p v =
     (let off = unat (p - mem_addr ma)
      in if off < length (mem ma) then ma\<lparr>mem := (mem ma)[off := v]\<rparr> else ma)"

definition load_byte :: "MicroArena \<Rightarrow> addr \<Rightarrow> 8 word" where
  "load_byte ma p =
     (let off = unat (p - mem_addr ma)
      in if off < length (mem ma) then mem ma ! off else 0)"

definition arena_calloc :: "MicroArena \<Rightarrow> size_t \<Rightarrow> size_t \<Rightarrow> addr \<times> MicroArena" where
  "arena_calloc ma nmemb sz =
     (case arena_malloc ma (sz * nmemb) of
        (m, ma1) \<Rightarrow>
          if m = NULL then (NULL, ma1)
          else (m, fold (\<lambda>i a. store_byte a (m + of_nat i) 0) [0..<unat (nmemb * sz)] ma1))"

definition micro_arena_calloc ::
  "MicroArena option \<Rightarrow> size_t \<Rightarrow> size_t \<Rightarrow> addr \<times> MicroArena option" where
  "micro_arena_calloc ma nmemb sz =
     (case ma of
        None \<Rightarrow> (NULL, None)
      | Some a \<Rightarrow> (case arena_calloc a nmemb sz of (p, a') \<Rightarrow> (p, Some a')))"

definition arena_realloc :: "MicroArena \<Rightarrow> addr \<Rightarrow> size_t \<Rightarrow> addr \<times> MicroArena" where
  "arena_realloc ma ptr sz =
     (if ptr = NULL then arena_malloc ma sz
      else (case chunk_list_get (used_chunks ma) ptr of
              None \<Rightarrow> (NULL, ma)
            | Some u \<Rightarrow>
                (case arena_malloc ma sz of
                   (m, ma1) \<Rightarrow>
                     if m = NULL then (NULL, ma1)
                     else (let used_chunk = used_chunks ma1 ! u;
                               min_size = (if size_c used_chunk < sz then size_c used_chunk else sz);
                               ma2 = fold (\<lambda>i a. store_byte a (m + of_nat i) (load_byte a (ptr + of_nat i)))
                                       [0..<unat min_size] ma1
                           in (m, arena_free ma2 ptr)))))"

definition micro_arena_realloc ::
  "MicroArena option \<Rightarrow> addr \<Rightarrow> size_t \<Rightarrow> addr \<times> MicroArena option" where
  "micro_arena_realloc ma ptr sz =
     (case ma of
        None \<Rightarrow> (NULL, None)
      | Some a \<Rightarrow> (case arena_realloc a ptr sz of (p, a') \<Rightarrow> (p, Some a')))"

definition micro_arena_reallocarray ::
  "MicroArena option \<Rightarrow> addr \<Rightarrow> size_t \<Rightarrow> size_t \<Rightarrow> addr \<times> MicroArena option" where
  "micro_arena_reallocarray ma ptr nmemb sz = micro_arena_realloc ma ptr (nmemb * sz)"

subsection \<open>Example arenas\<close>

text \<open>
  An arena as the test program declares it, before \<^verbatim>\<open>micro_arena_init\<close>: its buffer
  of 4096 bytes is at address \<open>0x10000\<close>.
\<close>

definition zero_bytes :: "8 word list" where
  "zero_bytes = replicate 4096 0"

definition example_arena :: MicroArena where
  "example_arena =
     \<lparr>mem_addr = 0x10000, mem = zero_bytes, free_chunks = [], used_chunks = []\<rparr>"

text \<open>The same arena right after \<^verbatim>\<open>micro_arena_init\<close>.\<close>

definition fresh_arena :: MicroArena where
  "fresh_arena =
     \<lparr>mem_addr = 0x10000, mem = zero_bytes,
      free_chunks = [\<lparr>start = 0x10000, size_c = 4096\<rparr>], used_chunks = []\<rparr>"

text \<open>
  The arena of the test program just before its last \<^verbatim>\<open>micro_arena_free\<close>: the chunk of
  10 bytes at offset 40 is in use, with a free entry of 40 bytes before it and a free entry
  of 4046 bytes after it.
\<close>

definition neighbours_arena :: MicroArena where
  "neighbours_arena =
     \<lparr>mem_addr = 0x10000, mem = zero_bytes,
      free_chunks = [\<lparr>start = 0x10032, size_c = 4046\<rparr>, \<lparr>start = 0x10000, size_c = 40\<rparr>],
      used_chunks = [\<lparr>start = 0x10028, size_c = 10\<rparr>]\<rparr>"

text \<open>
  An arena with 1023 live allocations of one byte each, the most the used directory
  takes, and 3073 free bytes behind them.
\<close>

definition full_used_arena :: MicroArena where
  "full_used_arena =
     \<lparr>mem_addr = 0x10000, mem = zero_bytes,
      free_chunks = [\<lparr>start = 0x103FF, size_c = 3073\<rparr>],
      used_chunks = map (\<lambda>i. \<lparr>start = 0x10000 + of_nat i, size_c = 1\<rparr>) [0..<1023]\<rparr>"

text \<open>
  The calls of \<^verbatim>\<open>src/test.c\<close>, in its order: three allocations of 40, 10 and 69
  bytes, then the release of the first, the third and the second.
\<close>

definition test_scenario :: MicroArena where
  "test_scenario =
     (let ma0 = arena_init example_arena;
          (mem1, ma1) = arena_malloc ma0 40;
          (mem2, ma2) = arena_malloc ma1 10;
          (mem3, ma3) = arena_malloc ma2 69;
          ma4 = arena_free ma3 mem1;
          ma5 = arena_free ma4 mem3
      in arena_free ma5 mem2)"

subsection \<open>Byte ranges\<close>

text \<open>
  The bytes a chunk stands for, and the bytes of the buffer: the addresses at a distance
  below the size from the start.
\<close>

definition chunk_range :: "MicroArenaChunk \<Rightarrow> addr set" where
  "chunk_range c = {a. unat (a - start c) < unat (size_c c)}"

definition buffer_range :: "MicroArena \<Rightarrow> addr set" where
  "buffer_range ma = {a. unat (a - mem_addr ma) < unat MICRO_ARENA_STACK_MEM_SIZE}"

subsection \<open>Sequences of calls\<close>

text \<open>
  A call of one of the six public operations with its arguments other than the arena, the
  arena pointer after such a call, and the arena pointer after a list of calls in order.
  A call requests zero bytes when the byte count it passes to the allocation is zero; for
  \<^verbatim>\<open>calloc\<close> and \<^verbatim>\<open>reallocarray\<close> that count is the product as the code
  computes it.
\<close>

datatype request =
    Init
  | Malloc size_t
  | Free addr
  | Calloc size_t size_t
  | Realloc addr size_t
  | Reallocarray addr size_t size_t

fun perform :: "request \<Rightarrow> MicroArena option \<Rightarrow> MicroArena option" where
  "perform Init ma = micro_arena_init ma"
| "perform (Malloc sz) ma = snd (micro_arena_malloc ma sz)"
| "perform (Free ptr) ma = micro_arena_free ma ptr"
| "perform (Calloc nmemb sz) ma = snd (micro_arena_calloc ma nmemb sz)"
| "perform (Realloc ptr sz) ma = snd (micro_arena_realloc ma ptr sz)"
| "perform (Reallocarray ptr nmemb sz) ma = snd (micro_arena_reallocarray ma ptr nmemb sz)"

definition run :: "request list \<Rightarrow> MicroArena option \<Rightarrow> MicroArena option" where
  "run rs ma = fold perform rs ma"

fun zero_request :: "request \<Rightarrow> bool" where
  "zero_request Init = False"
| "zero_request (Malloc sz) = (sz = 0)"
| "zero_request (Free ptr) = False"
| "zero_request (Calloc nmemb sz) = (sz * nmemb = 0)"
| "zero_request (Realloc ptr sz) = (sz = 0)"
| "zero_request (Reallocarray ptr nmemb sz) = (nmemb * sz = 0)"

subsection \<open>Layout of the directories inside the buffer\<close>

text \<open>
  Offsets of a chunk relative to the buffer address \<open>b\<close>: where it begins and where it
  ends. Two chunks are apart when one ends at or before the beginning of the other. The
  layout of a pair of directories: every chunk ends inside the buffer, used chunks are
  not empty, chunks are pairwise apart, and no free chunk ends where another free chunk
  begins. It is what the operations keep when no call requests zero bytes.
\<close>

definition chunk_lo :: "addr \<Rightarrow> MicroArenaChunk \<Rightarrow> nat" where
  "chunk_lo b c = unat (start c - b)"

definition chunk_hi :: "addr \<Rightarrow> MicroArenaChunk \<Rightarrow> nat" where
  "chunk_hi b c = chunk_lo b c + unat (size_c c)"

definition apart :: "addr \<Rightarrow> MicroArenaChunk \<Rightarrow> MicroArenaChunk \<Rightarrow> bool" where
  "apart b c d \<longleftrightarrow> chunk_hi b c \<le> chunk_lo b d \<or> chunk_hi b d \<le> chunk_lo b c"

definition layout :: "addr \<Rightarrow> MicroArenaChunk set \<Rightarrow> MicroArenaChunk set \<Rightarrow> bool" where
  "layout b F U \<longleftrightarrow>
     (\<forall>c \<in> F \<union> U. chunk_hi b c \<le> unat MICRO_ARENA_STACK_MEM_SIZE) \<and>
     (\<forall>c \<in> U. size_c c \<noteq> 0) \<and>
     (\<forall>c \<in> F. \<forall>d \<in> F. c \<noteq> d \<longrightarrow> apart b c d \<and> chunk_hi b c \<noteq> chunk_lo b d) \<and>
     (\<forall>c \<in> U. \<forall>d \<in> U. c \<noteq> d \<longrightarrow> apart b c d) \<and>
     (\<forall>c \<in> F. \<forall>d \<in> U. apart b c d)"

text \<open>
  The invariant of a pair of directories, and of an arena: no entry occurs twice in a
  directory, and the entries have the layout above.
\<close>

definition dirs_inv :: "addr \<Rightarrow> MicroArenaChunkList \<Rightarrow> MicroArenaChunkList \<Rightarrow> bool" where
  "dirs_inv b F U \<longleftrightarrow> distinct F \<and> distinct U \<and> layout b (set F) (set U)"

definition arena_inv :: "MicroArena \<Rightarrow> bool" where
  "arena_inv ma \<longleftrightarrow> dirs_inv (mem_addr ma) (free_chunks ma) (used_chunks ma)"

subsection \<open>The directory functions by structural recursion\<close>

declare chunk_list_find.simps [simp del]
declare chunk_list_get_from.simps [simp del]
declare arena_malloc_from.simps [simp del]
declare free_neighbours.simps [simp del]


lemma chunk_list_get_from_Cons:
  "chunk_list_get_from (c # cs) st (Suc i) = map_option Suc (chunk_list_get_from cs st i)"
proof (induction cs st i rule: chunk_list_get_from.induct)
  case (1 cl st i)
  show ?case
  proof (cases "i < length cl")
    case True
    then show ?thesis
      using "1.IH"
      by (subst chunk_list_get_from.simps, subst (2) chunk_list_get_from.simps) simp
  next
    case False
    then show ?thesis
      by (subst chunk_list_get_from.simps, subst (2) chunk_list_get_from.simps) simp
  qed
qed

lemma chunk_list_get_Nil [simp]: "chunk_list_get [] st = None"
  by (simp add: chunk_list_get_def chunk_list_get_from.simps)

lemma chunk_list_get_Cons [simp]:
  "chunk_list_get (c # cs) st =
     (if start c = st then Some 0 else map_option Suc (chunk_list_get cs st))"
  unfolding chunk_list_get_def
  by (subst chunk_list_get_from.simps) (simp add: chunk_list_get_from_Cons)

lemma chunk_list_find_Cons:
  "chunk_list_find (c # cs) st (Suc i) = Suc (chunk_list_find cs st i)"
proof (induction cs st i rule: chunk_list_find.induct)
  case (1 cl st i)
  show ?case
  proof (cases "i < length cl")
    case True
    then show ?thesis
      using "1.IH"
      by (subst chunk_list_find.simps, subst (2) chunk_list_find.simps) simp
  next
    case False
    then show ?thesis
      by (subst chunk_list_find.simps, subst (2) chunk_list_find.simps) simp
  qed
qed

lemma chunk_list_remove_Nil [simp]: "chunk_list_remove [] st = []"
  by (simp add: chunk_list_remove_def chunk_list_find.simps)

lemma chunk_list_remove_Cons [simp]:
  "chunk_list_remove (c # cs) st =
     (if start c = st then cs else c # chunk_list_remove cs st)"
proof (cases "start c = st")
  case True
  then have "chunk_list_find (c # cs) st 0 = 0"
    by (subst chunk_list_find.simps) simp
  then show ?thesis using True by (simp add: chunk_list_remove_def)
next
  case False
  then have "chunk_list_find (c # cs) st 0 = Suc (chunk_list_find cs st 0)"
    by (subst chunk_list_find.simps) (simp add: chunk_list_find_Cons)
  then show ?thesis using False by (simp add: chunk_list_remove_def Let_def)
qed

lemma chunk_list_get_None_iff: "chunk_list_get cl st = None \<longleftrightarrow> st \<notin> start ` set cl"
  by (induction cl) auto

lemma chunk_list_get_Some:
  "chunk_list_get cl st = Some i \<Longrightarrow>
     i < length cl \<and> start (cl ! i) = st \<and> (\<forall>j < i. start (cl ! j) \<noteq> st)"
proof (induction cl arbitrary: i)
  case Nil
  then show ?case by simp
next
  case (Cons c cs)
  show ?case
  proof (cases "start c = st")
    case True
    with Cons.prems show ?thesis by simp
  next
    case False
    with Cons.prems obtain k where k: "chunk_list_get cs st = Some k" "i = Suc k"
      by auto
    from Cons.IH[OF k(1)] False k(2) show ?thesis
      by (auto simp: less_Suc_eq_0_disj)
  qed
qed

lemma chunk_update_both [simp]:
  "(c :: MicroArenaChunk)\<lparr>start := a, size_c := b\<rparr> = \<lparr>start = a, size_c = b\<rparr>"
  by (cases c) simp

subsection \<open>The first-fit loop\<close>

lemma arena_malloc_from_no_fit:
  "(\<And>j. i \<le> j \<Longrightarrow> j < length (free_chunks ma) \<Longrightarrow> size_c (free_chunks ma ! j) < sz)
     \<Longrightarrow> arena_malloc_from ma sz i = (NULL, ma)"
proof (induction ma sz i rule: arena_malloc_from.induct)
  case (1 ma sz i)
  show ?case
  proof (cases "i < length (free_chunks ma)")
    case True
    with "1.prems"[of i] have small: "size_c (free_chunks ma ! i) < sz" by simp
    have "arena_malloc_from ma sz (i + 1) = (NULL, ma)"
      using "1.IH"[OF True small] "1.prems" by simp
    with True small show ?thesis
      by (subst arena_malloc_from.simps) simp
  next
    case False
    then show ?thesis by (subst arena_malloc_from.simps) simp
  qed
qed

lemma arena_malloc_from_fit:
  assumes "k < length (free_chunks ma)" "i \<le> k" "\<not> size_c (free_chunks ma ! k) < sz"
    and "\<And>j. i \<le> j \<Longrightarrow> j < k \<Longrightarrow> size_c (free_chunks ma ! j) < sz"
  shows "arena_malloc_from ma sz i =
     (if length (used_chunks ma) + 1 \<ge> MICRO_ARENA_MAX_NUM_CHUNKS then (NULL, ma)
      else (start (free_chunks ma ! k),
            ma\<lparr>used_chunks := used_chunks ma @ [\<lparr>start = start (free_chunks ma ! k), size_c = sz\<rparr>],
               free_chunks := (free_chunks ma)
                 [k := \<lparr>start = start (free_chunks ma ! k) + sz,
                        size_c = size_c (free_chunks ma ! k) - sz\<rparr>]\<rparr>))"
  using assms
proof (induction ma sz i rule: arena_malloc_from.induct)
  case (1 ma sz i)
  show ?case
  proof (cases "i = k")
    case True
    with "1.prems"(1,3) show ?thesis
      by (subst arena_malloc_from.simps)
         (simp add: chunk_list_add_def Let_def nth_append)
  next
    case False
    with "1.prems" have lt: "i < k" and il: "i < length (free_chunks ma)" by auto
    from "1.prems"(4)[of i] lt have small: "size_c (free_chunks ma ! i) < sz" by simp
    have "arena_malloc_from ma sz i = arena_malloc_from ma sz (i + 1)"
      using il small by (subst arena_malloc_from.simps) simp
    also have "\<dots> = (if length (used_chunks ma) + 1 \<ge> MICRO_ARENA_MAX_NUM_CHUNKS then (NULL, ma)
      else (start (free_chunks ma ! k),
            ma\<lparr>used_chunks := used_chunks ma @ [\<lparr>start = start (free_chunks ma ! k), size_c = sz\<rparr>],
               free_chunks := (free_chunks ma)
                 [k := \<lparr>start = start (free_chunks ma ! k) + sz,
                        size_c = size_c (free_chunks ma ! k) - sz\<rparr>]\<rparr>))"
      using "1.IH"[OF il small "1.prems"(1) _ "1.prems"(3)] lt "1.prems"(4) by simp
    finally show ?thesis .
  qed
qed

lemma first_fit_exists:
  assumes "\<exists>c \<in> set fl. \<not> size_c c < sz"
  shows "\<exists>k < length fl. \<not> size_c (fl ! k) < sz \<and> (\<forall>j < k. size_c (fl ! j) < sz)"
proof -
  from assms obtain n where n: "n < length fl \<and> \<not> size_c (fl ! n) < sz"
    by (auto simp: in_set_conv_nth)
  define k where "k = (LEAST n. n < length fl \<and> \<not> size_c (fl ! n) < sz)"
  have kfit: "k < length fl \<and> \<not> size_c (fl ! k) < sz"
    unfolding k_def by (rule LeastI[of _ n]) (rule n)
  moreover have "\<forall>j < k. size_c (fl ! j) < sz"
  proof (intro allI impI)
    fix j assume jk: "j < k"
    then have "\<not> (j < length fl \<and> \<not> size_c (fl ! j) < sz)"
      unfolding k_def by (rule not_less_Least)
    moreover have "j < length fl" using jk kfit by simp
    ultimately show "size_c (fl ! j) < sz" by simp
  qed
  ultimately show ?thesis by blast
qed

subsection \<open>Allocation\<close>

text \<open>
  Claim C4, as the code has it. The claim says that \<^verbatim>\<open>micro_arena_malloc\<close> fails
  exactly when no free entry is large enough. On \<open>full_used_arena\<close> the only free
  entry has 3073 bytes, and a request for 16 bytes returns the null pointer all the same,
  because the used directory takes no further entry.
\<close>

theorem malloc_fails_on_full_used_directory:
  "16 \<le> size_c (free_chunks full_used_arena ! 0) \<and>
   fst (micro_arena_malloc (Some full_used_arena) 16) = NULL"
  by (simp add: full_used_arena_def micro_arena_malloc_def arena_malloc_def
      arena_malloc_from.simps chunk_list_add_def MICRO_ARENA_MAX_NUM_CHUNKS_def)

text \<open>
  Claim C4, amended. In an arena none of whose free entries starts at the null address,
  \<^verbatim>\<open>micro_arena_malloc\<close> returns the null pointer exactly when no single free entry
  has at least the requested size (whatever the free sizes add up to) or the used directory
  already holds \<open>MICRO_ARENA_MAX_NUM_CHUNKS - 1\<close> entries; and when it returns the null
  pointer the arena is unchanged.
\<close>

theorem malloc_fails_iff:
  assumes "NULL \<notin> start ` set (free_chunks ma)"
  shows "(fst (micro_arena_malloc (Some ma) sz) = NULL
            \<longleftrightarrow> (\<forall>c \<in> set (free_chunks ma). size_c c < sz)
                \<or> length (used_chunks ma) + 1 \<ge> MICRO_ARENA_MAX_NUM_CHUNKS) \<and>
         (fst (micro_arena_malloc (Some ma) sz) = NULL
            \<longrightarrow> snd (micro_arena_malloc (Some ma) sz) = Some ma)"
proof (cases "\<forall>c \<in> set (free_chunks ma). size_c c < sz")
  case True
  then have "arena_malloc_from ma sz 0 = (NULL, ma)"
    by (intro arena_malloc_from_no_fit) simp
  with True show ?thesis by (simp add: micro_arena_malloc_def arena_malloc_def)
next
  case False
  then have "\<exists>c \<in> set (free_chunks ma). \<not> size_c c < sz" by simp
  from first_fit_exists[OF this] obtain k where k: "k < length (free_chunks ma)"
    "\<not> size_c (free_chunks ma ! k) < sz" "\<forall>j < k. size_c (free_chunks ma ! j) < sz"
    by blast
  from k(1) assms have "start (free_chunks ma ! k) \<noteq> NULL"
    by (metis imageI nth_mem)
  then show ?thesis
    using arena_malloc_from_fit[OF k(1) _ k(2), of 0] k(3) False
    by (simp add: micro_arena_malloc_def arena_malloc_def)
qed

theorem malloc_fails_iff_witness:
  "NULL \<notin> start ` set (free_chunks neighbours_arena) \<and>
   size_c (free_chunks neighbours_arena ! 0) < 4050 \<and>
   size_c (free_chunks neighbours_arena ! 1) < 4050 \<and>
   fst (micro_arena_malloc (Some neighbours_arena) 4050) = NULL \<and>
   snd (micro_arena_malloc (Some neighbours_arena) 4050) = Some neighbours_arena"
  using malloc_fails_iff [where ma = neighbours_arena and sz = 4050]
  by (simp add: neighbours_arena_def NULL_def)

text \<open>
  Claim C5, as the code has it. The claim promises the split for every arena with a free
  entry that is large enough. On \<open>full_used_arena\<close> such an entry is there, and a
  request for one byte appends nothing and changes nothing.
\<close>

theorem malloc_no_split_on_full_used_directory:
  "1 \<le> size_c (free_chunks full_used_arena ! 0) \<and>
   micro_arena_malloc (Some full_used_arena) 1 = (NULL, Some full_used_arena)"
  by (simp add: full_used_arena_def micro_arena_malloc_def arena_malloc_def
      arena_malloc_from.simps chunk_list_add_def MICRO_ARENA_MAX_NUM_CHUNKS_def)

text \<open>
  Claim C5, amended. When some free entry has at least the requested size and the used
  directory holds fewer than \<open>MICRO_ARENA_MAX_NUM_CHUNKS - 1\<close> entries,
  \<^verbatim>\<open>micro_arena_malloc\<close> takes the first such entry \<open>k\<close> in directory order, appends
  a used entry with that entry's start and the requested size, moves the start of the free
  entry forward by the requested size and takes the same amount off its size (the entry
  stays in its slot, also with size zero), and returns the start of the new used entry.
\<close>

theorem malloc_first_fit:
  assumes "\<exists>c \<in> set (free_chunks ma). sz \<le> size_c c"
    and "length (used_chunks ma) + 1 < MICRO_ARENA_MAX_NUM_CHUNKS"
  shows "\<exists>k < length (free_chunks ma).
           sz \<le> size_c (free_chunks ma ! k) \<and>
           (\<forall>j < k. size_c (free_chunks ma ! j) < sz) \<and>
           micro_arena_malloc (Some ma) sz =
             (start (free_chunks ma ! k),
              Some (ma\<lparr>used_chunks :=
                         used_chunks ma @ [\<lparr>start = start (free_chunks ma ! k), size_c = sz\<rparr>],
                       free_chunks := (free_chunks ma)
                         [k := \<lparr>start = start (free_chunks ma ! k) + sz,
                                size_c = size_c (free_chunks ma ! k) - sz\<rparr>]\<rparr>))"
proof -
  from assms(1) have "\<exists>c \<in> set (free_chunks ma). \<not> size_c c < sz"
    by (auto simp: not_less)
  from first_fit_exists[OF this] obtain k where k: "k < length (free_chunks ma)"
    "\<not> size_c (free_chunks ma ! k) < sz" "\<forall>j < k. size_c (free_chunks ma ! j) < sz"
    by blast
  have "arena_malloc_from ma sz 0 =
     (start (free_chunks ma ! k),
            ma\<lparr>used_chunks := used_chunks ma @ [\<lparr>start = start (free_chunks ma ! k), size_c = sz\<rparr>],
               free_chunks := (free_chunks ma)
                 [k := \<lparr>start = start (free_chunks ma ! k) + sz,
                        size_c = size_c (free_chunks ma ! k) - sz\<rparr>]\<rparr>)"
    using arena_malloc_from_fit[OF k(1) _ k(2), of 0] k(3) assms(2) by simp
  with k show ?thesis
    by (auto simp: micro_arena_malloc_def arena_malloc_def not_less)
qed

theorem malloc_first_fit_witness:
  "4096 \<le> size_c (free_chunks fresh_arena ! 0) \<and>
   length (used_chunks fresh_arena) + 1 < MICRO_ARENA_MAX_NUM_CHUNKS \<and>
   micro_arena_malloc (Some fresh_arena) 4096 =
     (0x10000, Some (fresh_arena\<lparr>used_chunks := [\<lparr>start = 0x10000, size_c = 4096\<rparr>],
                                 free_chunks := [\<lparr>start = 0x11000, size_c = 0\<rparr>]\<rparr>))"
  using malloc_first_fit [where ma = fresh_arena and sz = 4096]
  by (simp add: fresh_arena_def MICRO_ARENA_MAX_NUM_CHUNKS_def)

subsection \<open>Resize\<close>

text \<open>
  Claim C8. Let \<open>ptr\<close> be the start of a used entry, in an arena none of whose free
  entries starts at the null address (the buffer of an arena does not contain that
  address). If the allocation inside \<^verbatim>\<open>micro_arena_realloc\<close> returns the null pointer,
  then so does \<^verbatim>\<open>micro_arena_realloc\<close>, and the arena after the call is the arena
  before it: the used entry of \<open>ptr\<close> is still there and a release of \<open>ptr\<close> does what
  it would have done before.
\<close>

theorem realloc_failure_keeps_arena:
  assumes "ptr \<in> start ` set (used_chunks ma)"
    and "NULL \<notin> start ` set (free_chunks ma)"
    and "fst (micro_arena_malloc (Some ma) sz) = NULL"
  shows "micro_arena_realloc (Some ma) ptr sz = (NULL, Some ma) \<and>
         micro_arena_free (snd (micro_arena_realloc (Some ma) ptr sz)) ptr
           = micro_arena_free (Some ma) ptr"
proof -
  have "fst (micro_arena_malloc (Some ma) sz) = NULL
          \<longrightarrow> snd (micro_arena_malloc (Some ma) sz) = Some ma"
  proof (cases "\<forall>c \<in> set (free_chunks ma). size_c c < sz")
    case True
    then have "arena_malloc_from ma sz 0 = (NULL, ma)"
      by (intro arena_malloc_from_no_fit) simp
    then show ?thesis by (simp add: micro_arena_malloc_def arena_malloc_def)
  next
    case False
    then have "\<exists>c \<in> set (free_chunks ma). \<not> size_c c < sz" by simp
    from first_fit_exists[OF this] obtain k where k: "k < length (free_chunks ma)"
      "\<not> size_c (free_chunks ma ! k) < sz" "\<forall>j < k. size_c (free_chunks ma ! j) < sz"
      by blast
    from k(1) assms(2) have "start (free_chunks ma ! k) \<noteq> NULL"
      by (metis imageI nth_mem)
    then show ?thesis
      using arena_malloc_from_fit[OF k(1) _ k(2), of 0] k(3)
      by (simp add: micro_arena_malloc_def arena_malloc_def)
  qed
  with assms(3) have "snd (micro_arena_malloc (Some ma) sz) = Some ma" by simp
  with assms(3) have m: "arena_malloc ma sz = (NULL, ma)"
    by (auto simp: micro_arena_malloc_def split: prod.splits)
  from assms(1) obtain u where "chunk_list_get (used_chunks ma) ptr = Some u"
    using chunk_list_get_None_iff[of "used_chunks ma" ptr] by auto
  with m show ?thesis
    by (simp add: micro_arena_realloc_def arena_realloc_def)
qed

theorem realloc_failure_keeps_arena_witness:
  "0x10028 \<in> start ` set (used_chunks neighbours_arena) \<and>
   NULL \<notin> start ` set (free_chunks neighbours_arena) \<and>
   fst (micro_arena_malloc (Some neighbours_arena) 4050) = NULL \<and>
   micro_arena_realloc (Some neighbours_arena) 0x10028 4050 = (NULL, Some neighbours_arena)"
proof -
  have m: "fst (micro_arena_malloc (Some neighbours_arena) 4050) = NULL"
    by (simp add: neighbours_arena_def micro_arena_malloc_def arena_malloc_def
        arena_malloc_from.simps)
  have u: "0x10028 \<in> start ` set (used_chunks neighbours_arena)"
    by (simp add: neighbours_arena_def)
  have f: "NULL \<notin> start ` set (free_chunks neighbours_arena)"
    by (simp add: neighbours_arena_def NULL_def)
  from realloc_failure_keeps_arena [OF u f m] m u f show ?thesis by simp
qed

subsection \<open>Release next to two free neighbours\<close>

text \<open>
  Claim C1, on the arena of the test program before its last release. The chunk at
  \<open>0x10028\<close> (10 bytes) has the free entry \<open>(0x10000, 40)\<close> ending where it starts and
  the free entry \<open>(0x10032, 4046)\<close> starting where it ends. After
  \<^verbatim>\<open>micro_arena_free\<close> the used entry is gone, and the free directory holds the second
  neighbour as it was: no entry covers the 4096 bytes from \<open>0x10000\<close>, since the entry
  that received the merged size is the one the code then removes.
\<close>

theorem free_both_neighbours_drops_merged_entry:
  "micro_arena_free (Some neighbours_arena) 0x10028 =
     Some (neighbours_arena\<lparr>free_chunks := [\<lparr>start = 0x10032, size_c = 4046\<rparr>],
                            used_chunks := []\<rparr>)"
  by (simp add: micro_arena_free_def arena_free_def neighbours_arena_def
      free_neighbours.simps Let_def)

subsection \<open>The directories as a tiling of the buffer\<close>

text \<open>
  Claim C2, on the calls of the test program, which are a sequence of public calls after
  \<^verbatim>\<open>micro_arena_init\<close>. At the end no allocation is live and the free directory is
  the single entry \<open>(0x10032, 4046)\<close>: the first byte of the buffer, at \<open>0x10000\<close>, lies
  in the range of no entry of either directory.
\<close>

theorem test_scenario_loses_bytes:
  "run [Malloc 40, Malloc 10, Malloc 69, Free 0x10000, Free 0x10032, Free 0x10028]
     (micro_arena_init (Some example_arena)) = Some test_scenario \<and>
   free_chunks test_scenario = [\<lparr>start = 0x10032, size_c = 4046\<rparr>] \<and>
   used_chunks test_scenario = [] \<and>
   mem_addr test_scenario = 0x10000 \<and>
   0x10000 \<in> buffer_range test_scenario \<and>
   0x10000 \<notin> \<Union> (chunk_range ` set (free_chunks test_scenario @ used_chunks test_scenario))"
  by (simp add: test_scenario_def example_arena_def arena_init_def chunk_list_reset_def
      chunk_list_add_def MICRO_ARENA_MAX_NUM_CHUNKS_def MICRO_ARENA_STACK_MEM_SIZE_def
      arena_malloc_def arena_malloc_from.simps arena_free_def free_neighbours.simps Let_def
      buffer_range_def chunk_range_def run_def micro_arena_init_def micro_arena_malloc_def
      micro_arena_free_def)

subsection \<open>Start values without zero-size requests\<close>

lemma chunk_lo_le_hi: "chunk_lo b c \<le> chunk_hi b c"
  by (simp add: chunk_hi_def)

lemma start_eq_iff_lo: "start c = start d \<longleftrightarrow> chunk_lo b c = chunk_lo b d"
  by (simp add: chunk_lo_def word_unat_eq_iff[symmetric])

lemma unat_plus_small:
  fixes x y :: "64 word"
  assumes "unat x + unat y \<le> 4096"
  shows "unat (x + y) = unat x + unat y"
proof -
  have "unat x + unat y < 2 ^ LENGTH(64)" using assms by simp
  then show ?thesis by (simp only: unat_add_lem)
qed

lemma lo_advance:
  assumes "chunk_lo b c + unat sz \<le> 4096"
  shows "unat (start c + sz - b) = chunk_lo b c + unat sz"
proof -
  have "start c + sz - b = (start c - b) + sz" by simp
  moreover have "unat ((start c - b) + sz) = unat (start c - b) + unat sz"
    using unat_plus_small[of "start c - b" sz] assms by (simp add: chunk_lo_def)
  ultimately show ?thesis
    by (simp only: chunk_lo_def)
qed

lemma start_is_end_iff:
  assumes "chunk_hi b u \<le> 4096" "chunk_lo b d \<le> 4096"
  shows "start d = start u + size_c u \<longleftrightarrow> chunk_lo b d = chunk_hi b u"
proof -
  have e: "unat (start u + size_c u - b) = chunk_hi b u"
    using lo_advance[of b u "size_c u"] assms(1) by (simp add: chunk_hi_def)
  have "start d = start u + size_c u \<longleftrightarrow> start d - b = start u + size_c u - b"
    by simp
  also have "\<dots> \<longleftrightarrow> unat (start d - b) = unat (start u + size_c u - b)"
    by (rule word_unat_eq_iff)
  finally show ?thesis by (simp add: e chunk_lo_def)
qed

lemma layout_mono: "layout b F U \<Longrightarrow> F' \<subseteq> F \<Longrightarrow> U' \<subseteq> U \<Longrightarrow> layout b F' U'"
  unfolding layout_def by blast

lemma unat_mem_size [simp]: "unat MICRO_ARENA_STACK_MEM_SIZE = 4096"
  by (simp add: MICRO_ARENA_STACK_MEM_SIZE_def)

lemma layoutI:
  assumes "\<And>c. c \<in> F \<union> U \<Longrightarrow> chunk_hi b c \<le> 4096"
    and "\<And>c. c \<in> U \<Longrightarrow> size_c c \<noteq> 0"
    and "\<And>c d. c \<in> F \<Longrightarrow> d \<in> F \<Longrightarrow> c \<noteq> d \<Longrightarrow> apart b c d \<and> chunk_hi b c \<noteq> chunk_lo b d"
    and "\<And>c d. c \<in> U \<Longrightarrow> d \<in> U \<Longrightarrow> c \<noteq> d \<Longrightarrow> apart b c d"
    and "\<And>c d. c \<in> F \<Longrightarrow> d \<in> U \<Longrightarrow> apart b c d"
  shows "layout b F U"
  unfolding layout_def unat_mem_size using assms by blast

lemma layout_bound: "layout b F U \<Longrightarrow> c \<in> F \<union> U \<Longrightarrow> chunk_hi b c \<le> 4096"
  unfolding layout_def unat_mem_size by blast

lemma layout_nonzero: "layout b F U \<Longrightarrow> c \<in> U \<Longrightarrow> size_c c \<noteq> 0"
  unfolding layout_def by blast

lemma layout_FF:
  "layout b F U \<Longrightarrow> c \<in> F \<Longrightarrow> d \<in> F \<Longrightarrow> c \<noteq> d
     \<Longrightarrow> apart b c d \<and> chunk_hi b c \<noteq> chunk_lo b d \<and> chunk_hi b d \<noteq> chunk_lo b c"
  unfolding layout_def by (intro conjI) metis+

lemma layout_UU: "layout b F U \<Longrightarrow> c \<in> U \<Longrightarrow> d \<in> U \<Longrightarrow> c \<noteq> d \<Longrightarrow> apart b c d"
  unfolding layout_def by blast

lemma layout_FU: "layout b F U \<Longrightarrow> c \<in> F \<Longrightarrow> d \<in> U \<Longrightarrow> apart b c d"
  unfolding layout_def by blast

lemma nonzero_lo_less_hi: "size_c c \<noteq> 0 \<Longrightarrow> chunk_lo b c < chunk_hi b c"
  by (simp add: chunk_hi_def unat_gt_0)

lemma layout_free_lo_inj:
  assumes "layout b F U" "c \<in> F" "d \<in> F" "c \<noteq> d"
  shows "chunk_lo b c \<noteq> chunk_lo b d"
proof
  assume e: "chunk_lo b c = chunk_lo b d"
  from layout_FF[OF assms] e chunk_lo_le_hi[of b c] chunk_lo_le_hi[of b d] show False
    unfolding apart_def by linarith
qed

lemma layout_used_lo_inj:
  assumes "layout b F U" "c \<in> U" "d \<in> U" "c \<noteq> d"
  shows "chunk_lo b c \<noteq> chunk_lo b d"
proof
  assume e: "chunk_lo b c = chunk_lo b d"
  from layout_UU[OF assms] e
    nonzero_lo_less_hi[OF layout_nonzero[OF assms(1,2)], of b]
    nonzero_lo_less_hi[OF layout_nonzero[OF assms(1,3)], of b]
  show False
    unfolding apart_def by linarith
qed

lemma layout_split:
  assumes L: "layout b F U" and c: "c \<in> F"
    and n: "chunk_lo b n = chunk_lo b c" "chunk_hi b n = chunk_lo b c + k" "size_c n \<noteq> 0"
    and c': "chunk_lo b c' = chunk_lo b c + k" "chunk_hi b c' = chunk_hi b c"
    and k: "0 < k" "chunk_lo b c + k \<le> chunk_hi b c"
  shows "layout b (insert c' (F - {c})) (insert n U)"
proof (rule layoutI)
  fix x assume "x \<in> insert c' (F - {c}) \<union> insert n U"
  then consider "x = c'" | "x = n" | "x \<in> F \<union> U" by blast
  then show "chunk_hi b x \<le> 4096"
  proof cases
    case 1
    with layout_bound[OF L, of c] c c' show ?thesis by simp
  next
    case 2
    with layout_bound[OF L, of c] c n k show ?thesis by simp
  next
    case 3
    with layout_bound[OF L] show ?thesis by simp
  qed
next
  fix x assume "x \<in> insert n U"
  with n(3) layout_nonzero[OF L] show "size_c x \<noteq> 0" by blast
next
  fix x y assume xy: "x \<in> insert c' (F - {c})" "y \<in> insert c' (F - {c})" "x \<noteq> y"
  then consider "x = c'" "y \<in> F" "y \<noteq> c" | "y = c'" "x \<in> F" "x \<noteq> c"
    | "x \<in> F" "y \<in> F" by blast
  then show "apart b x y \<and> chunk_hi b x \<noteq> chunk_lo b y"
  proof cases
    case 1
    from layout_FF[OF L c 1(2)] 1(3) 1(1) c' k chunk_lo_le_hi[of b y]
    show ?thesis unfolding apart_def by auto
  next
    case 2
    from layout_FF[OF L c 2(2)] 2(3) 2(1) c' k chunk_lo_le_hi[of b x]
    show ?thesis unfolding apart_def by auto
  next
    case 3
    from layout_FF[OF L 3 xy(3)] show ?thesis by simp
  qed
next
  fix x y assume xy: "x \<in> insert n U" "y \<in> insert n U" "x \<noteq> y"
  then consider "x = n" "y \<in> U" | "y = n" "x \<in> U" | "x \<in> U" "y \<in> U" by blast
  then show "apart b x y"
  proof cases
    case 1
    from layout_FU[OF L c 1(2)] 1(1) n k show ?thesis unfolding apart_def by auto
  next
    case 2
    from layout_FU[OF L c 2(2)] 2(1) n k show ?thesis unfolding apart_def by auto
  next
    case 3
    from layout_UU[OF L 3 xy(3)] show ?thesis .
  qed
next
  fix x y assume xy: "x \<in> insert c' (F - {c})" "y \<in> insert n U"
  then consider "x = c'" "y = n" | "x = c'" "y \<in> U" | "x \<in> F" "x \<noteq> c" "y = n"
    | "x \<in> F" "y \<in> U" by blast
  then show "apart b x y"
  proof cases
    case 1
    with n c' show ?thesis unfolding apart_def by simp
  next
    case 2
    from layout_FU[OF L c 2(2)] 2(1) c' k show ?thesis unfolding apart_def by auto
  next
    case 3
    from layout_FF[OF L c 3(1)] 3(2,3) n k show ?thesis unfolding apart_def by auto
  next
    case 4
    from layout_FU[OF L 4] show ?thesis .
  qed
qed

lemma layout_grow_before:
  assumes L: "layout b F U" and u: "u \<in> U" and f: "f \<in> F"
    and touch: "chunk_lo b u = chunk_hi b f"
    and no_after: "\<And>d. d \<in> F \<Longrightarrow> chunk_lo b d \<noteq> chunk_hi b u"
    and f': "chunk_lo b f' = chunk_lo b f" "chunk_hi b f' = chunk_hi b u"
  shows "layout b (insert f' (F - {f})) (U - {u})"
proof (rule layoutI)
  fix x assume "x \<in> insert f' (F - {f}) \<union> (U - {u})"
  then consider "x = f'" | "x \<in> F \<union> U" by blast
  then show "chunk_hi b x \<le> 4096"
  proof cases
    case 1
    with layout_bound[OF L, of u] u f' show ?thesis by simp
  next
    case 2
    with layout_bound[OF L] show ?thesis by simp
  qed
next
  fix x assume "x \<in> U - {u}"
  with layout_nonzero[OF L] show "size_c x \<noteq> 0" by blast
next
  fix x y assume xy: "x \<in> insert f' (F - {f})" "y \<in> insert f' (F - {f})" "x \<noteq> y"
  then consider "x = f'" "y \<in> F" "y \<noteq> f" | "y = f'" "x \<in> F" "x \<noteq> f"
    | "x \<in> F" "y \<in> F" by blast
  then show "apart b x y \<and> chunk_hi b x \<noteq> chunk_lo b y"
  proof cases
    case 1
    from layout_FF[OF L f 1(2)] layout_FU[OF L 1(2) u] no_after[OF 1(2)] 1(3) 1(1) f' touch
      chunk_lo_le_hi[of b y]
    show ?thesis unfolding apart_def by auto
  next
    case 2
    from layout_FF[OF L f 2(2)] layout_FU[OF L 2(2) u] no_after[OF 2(2)] 2(3) 2(1) f' touch
      chunk_lo_le_hi[of b x]
    show ?thesis unfolding apart_def by auto
  next
    case 3
    from layout_FF[OF L 3 xy(3)] show ?thesis by simp
  qed
next
  fix x y assume "x \<in> U - {u}" "y \<in> U - {u}" "x \<noteq> y"
  with layout_UU[OF L] show "apart b x y" by blast
next
  fix x y assume xy: "x \<in> insert f' (F - {f})" "y \<in> U - {u}"
  then consider "x = f'" "y \<in> U" "y \<noteq> u" | "x \<in> F" "y \<in> U" by blast
  then show "apart b x y"
  proof cases
    case 1
    from layout_FU[OF L f 1(2)] layout_UU[OF L u 1(2)] 1(3) 1(1) f' touch
      nonzero_lo_less_hi[OF layout_nonzero[OF L 1(2)], of b]
    show ?thesis unfolding apart_def by auto
  next
    case 2
    from layout_FU[OF L 2] show ?thesis .
  qed
qed

lemma layout_grow_after:
  assumes L: "layout b F U" and u: "u \<in> U" and f: "f \<in> F"
    and touch: "chunk_lo b f = chunk_hi b u"
    and no_before: "\<And>d. d \<in> F \<Longrightarrow> chunk_hi b d \<noteq> chunk_lo b u"
    and f': "chunk_lo b f' = chunk_lo b u" "chunk_hi b f' = chunk_hi b f"
  shows "layout b (insert f' (F - {f})) (U - {u})"
proof (rule layoutI)
  fix x assume "x \<in> insert f' (F - {f}) \<union> (U - {u})"
  then consider "x = f'" | "x \<in> F \<union> U" by blast
  then show "chunk_hi b x \<le> 4096"
  proof cases
    case 1
    with layout_bound[OF L, of f] f f' show ?thesis by simp
  next
    case 2
    with layout_bound[OF L] show ?thesis by simp
  qed
next
  fix x assume "x \<in> U - {u}"
  with layout_nonzero[OF L] show "size_c x \<noteq> 0" by blast
next
  fix x y assume xy: "x \<in> insert f' (F - {f})" "y \<in> insert f' (F - {f})" "x \<noteq> y"
  then consider "x = f'" "y \<in> F" "y \<noteq> f" | "y = f'" "x \<in> F" "x \<noteq> f"
    | "x \<in> F" "y \<in> F" by blast
  then show "apart b x y \<and> chunk_hi b x \<noteq> chunk_lo b y"
  proof cases
    case 1
    from layout_FF[OF L f 1(2)] layout_FU[OF L 1(2) u] no_before[OF 1(2)] 1(3) 1(1) f' touch
      chunk_lo_le_hi[of b y] chunk_lo_le_hi[of b u]
    show ?thesis unfolding apart_def by auto
  next
    case 2
    from layout_FF[OF L f 2(2)] layout_FU[OF L 2(2) u] no_before[OF 2(2)] 2(3) 2(1) f' touch
      chunk_lo_le_hi[of b x] chunk_lo_le_hi[of b u]
    show ?thesis unfolding apart_def by auto
  next
    case 3
    from layout_FF[OF L 3 xy(3)] show ?thesis by simp
  qed
next
  fix x y assume "x \<in> U - {u}" "y \<in> U - {u}" "x \<noteq> y"
  with layout_UU[OF L] show "apart b x y" by blast
next
  fix x y assume xy: "x \<in> insert f' (F - {f})" "y \<in> U - {u}"
  then consider "x = f'" "y \<in> U" "y \<noteq> u" | "x \<in> F" "y \<in> U" by blast
  then show "apart b x y"
  proof cases
    case 1
    from layout_FU[OF L f 1(2)] layout_UU[OF L u 1(2)] 1(3) 1(1) f' touch
      nonzero_lo_less_hi[OF layout_nonzero[OF L 1(2)], of b]
    show ?thesis unfolding apart_def by auto
  next
    case 2
    from layout_FU[OF L 2] show ?thesis .
  qed
qed

lemma layout_add_free:
  assumes L: "layout b F U" and u: "u \<in> U"
    and no_after: "\<And>d. d \<in> F \<Longrightarrow> chunk_lo b d \<noteq> chunk_hi b u"
    and no_before: "\<And>d. d \<in> F \<Longrightarrow> chunk_hi b d \<noteq> chunk_lo b u"
    and u': "chunk_lo b u' = chunk_lo b u" "chunk_hi b u' = chunk_hi b u"
  shows "layout b (insert u' F) (U - {u})"
proof (rule layoutI)
  fix x assume "x \<in> insert u' F \<union> (U - {u})"
  then consider "x = u'" | "x \<in> F \<union> U" by blast
  then show "chunk_hi b x \<le> 4096"
  proof cases
    case 1
    with layout_bound[OF L, of u] u u' show ?thesis by simp
  next
    case 2
    with layout_bound[OF L] show ?thesis by simp
  qed
next
  fix x assume "x \<in> U - {u}"
  with layout_nonzero[OF L] show "size_c x \<noteq> 0" by blast
next
  fix x y assume xy: "x \<in> insert u' F" "y \<in> insert u' F" "x \<noteq> y"
  then consider "x = u'" "y \<in> F" | "y = u'" "x \<in> F" | "x \<in> F" "y \<in> F" by blast
  then show "apart b x y \<and> chunk_hi b x \<noteq> chunk_lo b y"
  proof cases
    case 1
    from layout_FU[OF L 1(2) u] no_after[OF 1(2)] no_before[OF 1(2)] 1(1) u'
    show ?thesis unfolding apart_def by auto
  next
    case 2
    from layout_FU[OF L 2(2) u] no_after[OF 2(2)] no_before[OF 2(2)] 2(1) u'
    show ?thesis unfolding apart_def by auto
  next
    case 3
    from layout_FF[OF L 3 xy(3)] show ?thesis by simp
  qed
next
  fix x y assume "x \<in> U - {u}" "y \<in> U - {u}" "x \<noteq> y"
  with layout_UU[OF L] show "apart b x y" by blast
next
  fix x y assume xy: "x \<in> insert u' F" "y \<in> U - {u}"
  then consider "x = u'" "y \<in> U" "y \<noteq> u" | "x \<in> F" "y \<in> U" by blast
  then show "apart b x y"
  proof cases
    case 1
    from layout_UU[OF L u 1(2)] 1(3) 1(1) u' show ?thesis unfolding apart_def by auto
  next
    case 2
    from layout_FU[OF L 2] show ?thesis .
  qed
qed

lemma chunk_list_remove_subset: "set (chunk_list_remove cl st) \<subseteq> set cl"
  by (induction cl) auto

lemma chunk_list_remove_distinct: "distinct cl \<Longrightarrow> distinct (chunk_list_remove cl st)"
  using chunk_list_remove_subset by (induction cl) auto

lemma chunk_list_remove_set:
  "distinct (map start cl) \<Longrightarrow> set (chunk_list_remove cl st) = {c \<in> set cl. start c \<noteq> st}"
  by (induction cl) (auto simp: image_iff)

lemma chunk_eta [simp]: "\<lparr>start = start c, size_c = size_c c\<rparr> = (c :: MicroArenaChunk)"
  by (cases c) simp

lemma arena_malloc_cases:
  "arena_malloc ma sz = (NULL, ma) \<or>
   (\<exists>k < length (free_chunks ma). \<not> size_c (free_chunks ma ! k) < sz \<and>
      arena_malloc ma sz =
        (start (free_chunks ma ! k),
         ma\<lparr>used_chunks := used_chunks ma @ [\<lparr>start = start (free_chunks ma ! k), size_c = sz\<rparr>],
            free_chunks := (free_chunks ma)
              [k := \<lparr>start = start (free_chunks ma ! k) + sz,
                     size_c = size_c (free_chunks ma ! k) - sz\<rparr>]\<rparr>))"
proof (cases "\<forall>c \<in> set (free_chunks ma). size_c c < sz")
  case True
  then have "arena_malloc_from ma sz 0 = (NULL, ma)"
    by (intro arena_malloc_from_no_fit) simp
  then show ?thesis by (simp add: arena_malloc_def)
next
  case False
  then have "\<exists>c \<in> set (free_chunks ma). \<not> size_c c < sz" by simp
  from first_fit_exists[OF this] obtain k where k: "k < length (free_chunks ma)"
    "\<not> size_c (free_chunks ma ! k) < sz" "\<forall>j < k. size_c (free_chunks ma ! j) < sz"
    by blast
  show ?thesis
    using arena_malloc_from_fit[OF k(1) _ k(2), of 0] k
    by (auto simp: arena_malloc_def)
qed

lemma arena_inv_split:
  assumes I: "arena_inv ma" and k: "k < length (free_chunks ma)"
    and fit: "\<not> size_c (free_chunks ma ! k) < sz" and nz: "sz \<noteq> 0"
  shows "arena_inv
     (ma\<lparr>used_chunks := used_chunks ma @ [\<lparr>start = start (free_chunks ma ! k), size_c = sz\<rparr>],
         free_chunks := (free_chunks ma)
           [k := \<lparr>start = start (free_chunks ma ! k) + sz,
                  size_c = size_c (free_chunks ma ! k) - sz\<rparr>]\<rparr>)"
proof -
  define b where "b = mem_addr ma"
  define F where "F = free_chunks ma"
  define U where "U = used_chunks ma"
  define c where "c = F ! k"
  define n where "n = \<lparr>start = start c, size_c = sz\<rparr>"
  define c' where "c' = \<lparr>start = start c + sz, size_c = size_c c - sz\<rparr>"
  from I have dF: "distinct F" and dU: "distinct U" and L: "layout b (set F) (set U)"
    by (simp_all add: arena_inv_def dirs_inv_def b_def F_def U_def)
  from k have cF: "c \<in> set F" by (simp add: c_def F_def)
  from fit have le: "sz \<le> size_c c" by (simp add: c_def F_def not_less)
  then have le': "unat sz \<le> unat (size_c c)" by (simp add: word_le_nat_alt)
  from nz have pos: "0 < unat sz" by (simp add: unat_gt_0)
  have bound: "chunk_hi b c \<le> 4096" using layout_bound[OF L, of c] cF by simp
  have lo_n: "chunk_lo b n = chunk_lo b c" by (simp add: chunk_lo_def n_def)
  have hi_n: "chunk_hi b n = chunk_lo b c + unat sz" by (simp add: chunk_hi_def chunk_lo_def n_def)
  have sz_n: "size_c n \<noteq> 0" using nz by (simp add: n_def)
  have lo_c': "chunk_lo b c' = chunk_lo b c + unat sz"
    using lo_advance[of b c sz] bound le' by (simp add: chunk_lo_def chunk_hi_def c'_def)
  have hi_c': "chunk_hi b c' = chunk_hi b c"
    using lo_c' le' unat_sub[OF le] by (simp add: chunk_hi_def c'_def)
  have fits: "chunk_lo b c + unat sz \<le> chunk_hi b c"
    using le' by (simp add: chunk_hi_def)
  have L': "layout b (insert c' (set F - {c})) (insert n (set U))"
    by (rule layout_split[OF L cF lo_n hi_n sz_n lo_c' hi_c' pos fits])
  have c'_new: "c' \<notin> set F - {c}"
  proof
    assume "c' \<in> set F - {c}"
    then have d: "c' \<in> set F" "c \<noteq> c'" by auto
    from layout_FF[OF L cF d] lo_c' hi_c' pos fits chunk_lo_le_hi[of b c']
    show False unfolding apart_def by auto
  qed
  have n_new: "n \<notin> set U"
  proof
    assume d: "n \<in> set U"
    from layout_FU[OF L cF d] lo_n hi_n pos fits show False
      unfolding apart_def by auto
  qed
  have "distinct (F[k := c'])"
    using distinct_list_update[OF dF, of c' k] c'_new by (simp add: c_def)
  moreover have "distinct (U @ [n])" using dU n_new by simp
  moreover have "set (F[k := c']) = insert c' (set F - {c})"
    using set_update_distinct[OF dF, of k c'] k by (simp add: c_def F_def)
  moreover have "set (U @ [n]) = insert n (set U)" by simp
  ultimately have "distinct (F[k := c']) \<and> distinct (U @ [n]) \<and>
      layout b (set (F[k := c'])) (set (U @ [n]))"
    using L' by simp
  then show ?thesis
    by (simp add: arena_inv_def dirs_inv_def b_def F_def U_def c_def n_def c'_def)
qed

lemma arena_inv_malloc:
  assumes "arena_inv ma" "sz \<noteq> 0"
  shows "arena_inv (snd (arena_malloc ma sz))"
  using arena_malloc_cases[of ma sz] arena_inv_split[OF assms(1) _ _ assms(2)] assms(1)
  by auto

lemma free_neighbours_result:
  assumes "free_neighbours fl u i (a0, b0) = (a, b)"
    and "case a0 of None \<Rightarrow> \<forall>j < i. j < length fl \<longrightarrow> start (fl ! j) \<noteq> start u + size_c u
         | Some k \<Rightarrow> k < length fl \<and> start (fl ! k) = start u + size_c u"
    and "case b0 of None \<Rightarrow> \<forall>j < i. j < length fl \<longrightarrow> start u \<noteq> start (fl ! j) + size_c (fl ! j)
         | Some k \<Rightarrow> k < length fl \<and> start u = start (fl ! k) + size_c (fl ! k)"
  shows "(case a of None \<Rightarrow> \<forall>j < length fl. start (fl ! j) \<noteq> start u + size_c u
          | Some k \<Rightarrow> k < length fl \<and> start (fl ! k) = start u + size_c u) \<and>
         (case b of None \<Rightarrow> \<forall>j < length fl. start u \<noteq> start (fl ! j) + size_c (fl ! j)
          | Some k \<Rightarrow> k < length fl \<and> start u = start (fl ! k) + size_c (fl ! k))"
  using assms
proof (induction fl u i "(a0, b0)" arbitrary: a0 b0 rule: free_neighbours.induct)
  case (1 fl u i a0 b0)
  show ?case
  proof (cases "i < length fl")
    case True
    define a1 where "a1 = (if start (fl ! i) = start u + size_c u then Some i else a0)"
    define b1 where "b1 = (if start u = start (fl ! i) + size_c (fl ! i) then Some i else b0)"
    have step: "free_neighbours fl u (i + 1) (a1, b1) = (a, b)"
      using "1.prems"(1) True
      by (subst (asm) free_neighbours.simps) (simp add: a1_def b1_def Let_def)
    have A: "case a1 of None \<Rightarrow> \<forall>j < i + 1. j < length fl \<longrightarrow> start (fl ! j) \<noteq> start u + size_c u
         | Some k \<Rightarrow> k < length fl \<and> start (fl ! k) = start u + size_c u"
      using "1.prems"(2) True
      by (auto simp: a1_def less_Suc_eq split: option.splits)
    have B: "case b1 of None \<Rightarrow> \<forall>j < i + 1. j < length fl \<longrightarrow> start u \<noteq> start (fl ! j) + size_c (fl ! j)
         | Some k \<Rightarrow> k < length fl \<and> start u = start (fl ! k) + size_c (fl ! k)"
      using "1.prems"(3) True
      by (auto simp: b1_def less_Suc_eq split: option.splits)
    show ?thesis
      by (rule "1.hyps"[OF True a1_def b1_def step A B])
  next
    case False
    then have "a = a0" "b = b0"
      using "1.prems"(1) by (subst (asm) free_neighbours.simps, simp)+
    with "1.prems"(2,3) False show ?thesis
      by (auto split: option.splits)
  qed
qed

lemma free_neighbours_sets:
  assumes "free_neighbours fl u 0 (None, None) = (a, b)"
  shows "(case a of None \<Rightarrow> \<forall>d \<in> set fl. start d \<noteq> start u + size_c u
          | Some k \<Rightarrow> k < length fl \<and> start (fl ! k) = start u + size_c u) \<and>
         (case b of None \<Rightarrow> \<forall>d \<in> set fl. start u \<noteq> start d + size_c d
          | Some k \<Rightarrow> k < length fl \<and> start u = start (fl ! k) + size_c (fl ! k))"
  using free_neighbours_result[OF assms]
  by (auto simp: in_set_conv_nth split: option.splits)

lemma arena_inv_dirs: "arena_inv ma \<longleftrightarrow> dirs_inv (mem_addr ma) (free_chunks ma) (used_chunks ma)"
  by (simp add: arena_inv_def)

lemma dirs_inv_used_starts:
  assumes "dirs_inv b F U"
  shows "distinct (map start U)"
proof -
  have "inj_on start (set U)"
  proof (rule inj_onI)
    fix c d assume "c \<in> set U" "d \<in> set U" "start c = start d"
    then show "c = d"
      using layout_used_lo_inj[of b "set F" "set U" c d] assms start_eq_iff_lo[of c d b]
      unfolding dirs_inv_def by blast
  qed
  with assms show ?thesis by (simp add: distinct_map dirs_inv_def)
qed

lemma dirs_inv_free_starts:
  assumes "dirs_inv b F U"
  shows "distinct (map start F)"
proof -
  have "inj_on start (set F)"
  proof (rule inj_onI)
    fix c d assume "c \<in> set F" "d \<in> set F" "start c = start d"
    then show "c = d"
      using layout_free_lo_inj[of b "set F" "set U" c d] assms start_eq_iff_lo[of c d b]
      unfolding dirs_inv_def by blast
  qed
  with assms show ?thesis by (simp add: distinct_map dirs_inv_def)
qed

lemma remove_used_subset:
  assumes I: "dirs_inv b F U" and u: "u \<in> set U"
  shows "set (chunk_list_remove U (start u)) \<subseteq> set U - {u}"
  using chunk_list_remove_set[OF dirs_inv_used_starts[OF I], of "start u"] by auto

lemma dirs_inv_mono:
  assumes "dirs_inv b F U" "distinct F'" "distinct U'" "set F' \<subseteq> set F" "set U' \<subseteq> set U"
  shows "dirs_inv b F' U'"
  using assms layout_mono unfolding dirs_inv_def by blast

lemma dirs_inv_both:
  assumes I: "dirs_inv b F U" and bi: "bi < length F"
  shows "dirs_inv b (chunk_list_remove (F[bi := (F ! bi)\<lparr>size_c := s\<rparr>]) (start (F ! bi)))
           (chunk_list_remove U st)"
proof -
  define F' where "F' = F[bi := (F ! bi)\<lparr>size_c := s\<rparr>]"
  have ms: "map start F' = map start F"
    by (simp add: F'_def map_update list_update_same_conv bi)
  with dirs_inv_free_starts[OF I] have dms: "distinct (map start F')" by simp
  then have dF': "distinct F'" by (simp add: distinct_map)
  have "set (chunk_list_remove F' (start (F ! bi))) = {c \<in> set F'. start c \<noteq> start (F ! bi)}"
    by (rule chunk_list_remove_set[OF dms])
  also have "\<dots> \<subseteq> set F"
    using set_update_subset_insert[of F bi "(F ! bi)\<lparr>size_c := s\<rparr>"] by (auto simp: F'_def)
  finally have sub: "set (chunk_list_remove F' (start (F ! bi))) \<subseteq> set F" .
  show ?thesis
    unfolding F'_def[symmetric]
    by (rule dirs_inv_mono[OF I chunk_list_remove_distinct[OF dF']
          chunk_list_remove_distinct sub chunk_list_remove_subset])
       (use I in \<open>simp add: dirs_inv_def\<close>)
qed

lemma dirs_inv_before:
  assumes I: "dirs_inv b F U" and u: "u \<in> set U" and bi: "bi < length F"
    and touch: "start u = start (F ! bi) + size_c (F ! bi)"
    and no_after: "\<forall>d \<in> set F. start d \<noteq> start u + size_c u"
  shows "dirs_inv b (F[bi := (F ! bi)\<lparr>size_c := size_c (F ! bi) + size_c u\<rparr>])
           (chunk_list_remove U (start u))"
proof -
  define f where "f = F ! bi"
  define f' where "f' = f\<lparr>size_c := size_c f + size_c u\<rparr>"
  from I have dF: "distinct F" and dU: "distinct U" and L: "layout b (set F) (set U)"
    by (simp_all add: dirs_inv_def)
  from bi have fF: "f \<in> set F" by (simp add: f_def)
  have bu: "chunk_hi b u \<le> 4096" using layout_bound[OF L, of u] u by simp
  have bf: "chunk_hi b f \<le> 4096" using layout_bound[OF L, of f] fF by simp
  have lu: "chunk_lo b u \<le> 4096" using bu chunk_lo_le_hi[of b u] by simp
  have t: "chunk_lo b u = chunk_hi b f"
    using start_is_end_iff[OF bf lu] touch by (simp add: f_def)
  have na: "\<And>d. d \<in> set F \<Longrightarrow> chunk_lo b d \<noteq> chunk_hi b u"
  proof -
    fix d assume d: "d \<in> set F"
    have "chunk_lo b d \<le> 4096"
      using layout_bound[OF L, of d] d chunk_lo_le_hi[of b d] by simp
    from start_is_end_iff[OF bu this] no_after d show "chunk_lo b d \<noteq> chunk_hi b u" by simp
  qed
  have lo_f': "chunk_lo b f' = chunk_lo b f" by (simp add: chunk_lo_def f'_def)
  have "unat (size_c f + size_c u) = unat (size_c f) + unat (size_c u)"
    using unat_plus_small[of "size_c f" "size_c u"] bu t by (simp add: chunk_hi_def)
  then have hi_f': "chunk_hi b f' = chunk_hi b u"
    using t by (simp add: chunk_hi_def chunk_lo_def f'_def)
  have L': "layout b (insert f' (set F - {f})) (set U - {u})"
    by (rule layout_grow_before[OF L u fF t na lo_f' hi_f'])
  have f'_new: "f' \<notin> set F - {f}"
  proof
    assume "f' \<in> set F - {f}"
    then have d: "f' \<in> set F" "f' \<noteq> f" by auto
    from layout_free_lo_inj[OF L d(1) fF d(2)] lo_f' show False by simp
  qed
  have "distinct (F[bi := f'])"
    using distinct_list_update[OF dF, of f' bi] f'_new by (simp add: f_def)
  moreover have "set (F[bi := f']) = insert f' (set F - {f})"
    using set_update_distinct[OF dF bi, of f'] by (simp add: f_def)
  moreover have "distinct (chunk_list_remove U (start u))"
    by (rule chunk_list_remove_distinct[OF dU])
  moreover note layout_mono[OF L' subset_refl remove_used_subset[OF I u]]
  ultimately show ?thesis
    by (simp add: dirs_inv_def f'_def f_def)
qed

lemma dirs_inv_after:
  assumes I: "dirs_inv b F U" and u: "u \<in> set U" and ai: "ai < length F"
    and touch: "start (F ! ai) = start u + size_c u"
    and no_before: "\<forall>d \<in> set F. start u \<noteq> start d + size_c d"
  shows "dirs_inv b (F[ai := \<lparr>start = start u, size_c = size_c (F ! ai) + size_c u\<rparr>])
           (chunk_list_remove U (start u))"
proof -
  define f where "f = F ! ai"
  define f' where "f' = \<lparr>start = start u, size_c = size_c f + size_c u\<rparr>"
  from I have dF: "distinct F" and dU: "distinct U" and L: "layout b (set F) (set U)"
    by (simp_all add: dirs_inv_def)
  from ai have fF: "f \<in> set F" by (simp add: f_def)
  have bu: "chunk_hi b u \<le> 4096" using layout_bound[OF L, of u] u by simp
  have bf: "chunk_hi b f \<le> 4096" using layout_bound[OF L, of f] fF by simp
  have lu: "chunk_lo b u \<le> 4096" using bu chunk_lo_le_hi[of b u] by simp
  have lf: "chunk_lo b f \<le> 4096" using bf chunk_lo_le_hi[of b f] by simp
  have t: "chunk_lo b f = chunk_hi b u"
    using start_is_end_iff[OF bu lf] touch by (simp add: f_def)
  have nb: "\<And>d. d \<in> set F \<Longrightarrow> chunk_hi b d \<noteq> chunk_lo b u"
  proof -
    fix d assume d: "d \<in> set F"
    have "chunk_hi b d \<le> 4096" using layout_bound[OF L, of d] d by simp
    from start_is_end_iff[OF this lu] no_before d show "chunk_hi b d \<noteq> chunk_lo b u"
      by auto
  qed
  have lo_f': "chunk_lo b f' = chunk_lo b u" by (simp add: chunk_lo_def f'_def)
  have "unat (size_c f + size_c u) = unat (size_c f) + unat (size_c u)"
    using unat_plus_small[of "size_c f" "size_c u"] bf t by (simp add: chunk_hi_def)
  then have hi_f': "chunk_hi b f' = chunk_hi b f"
    using t by (simp add: chunk_hi_def chunk_lo_def f'_def)
  have L': "layout b (insert f' (set F - {f})) (set U - {u})"
    by (rule layout_grow_after[OF L u fF t nb lo_f' hi_f'])
  have f'_new: "f' \<notin> set F - {f}"
  proof
    assume "f' \<in> set F - {f}"
    then have d: "f' \<in> set F" by auto
    from layout_FU[OF L d u] nb[OF d] lo_f'
      nonzero_lo_less_hi[OF layout_nonzero[OF L u], of b] chunk_lo_le_hi[of b f']
    show False unfolding apart_def by auto
  qed
  have "distinct (F[ai := f'])"
    using distinct_list_update[OF dF, of f' ai] f'_new by (simp add: f_def)
  moreover have "set (F[ai := f']) = insert f' (set F - {f})"
    using set_update_distinct[OF dF ai, of f'] by (simp add: f_def)
  moreover have "distinct (chunk_list_remove U (start u))"
    by (rule chunk_list_remove_distinct[OF dU])
  moreover note layout_mono[OF L' subset_refl remove_used_subset[OF I u]]
  ultimately show ?thesis
    by (simp add: dirs_inv_def f'_def f_def)
qed

lemma dirs_inv_neither:
  assumes I: "dirs_inv b F U" and u: "u \<in> set U"
    and no_after: "\<forall>d \<in> set F. start d \<noteq> start u + size_c u"
    and no_before: "\<forall>d \<in> set F. start u \<noteq> start d + size_c d"
  shows "dirs_inv b (snd (chunk_list_add F (start u) (size_c u)))
           (chunk_list_remove U (start u))"
proof -
  from I have dF: "distinct F" and dU: "distinct U" and L: "layout b (set F) (set U)"
    by (simp_all add: dirs_inv_def)
  have bu: "chunk_hi b u \<le> 4096" using layout_bound[OF L, of u] u by simp
  have lu: "chunk_lo b u \<le> 4096" using bu chunk_lo_le_hi[of b u] by simp
  have na: "\<And>d. d \<in> set F \<Longrightarrow> chunk_lo b d \<noteq> chunk_hi b u"
  proof -
    fix d assume d: "d \<in> set F"
    have "chunk_lo b d \<le> 4096"
      using layout_bound[OF L, of d] d chunk_lo_le_hi[of b d] by simp
    from start_is_end_iff[OF bu this] no_after d show "chunk_lo b d \<noteq> chunk_hi b u" by simp
  qed
  have nb: "\<And>d. d \<in> set F \<Longrightarrow> chunk_hi b d \<noteq> chunk_lo b u"
  proof -
    fix d assume d: "d \<in> set F"
    have "chunk_hi b d \<le> 4096" using layout_bound[OF L, of d] d by simp
    from start_is_end_iff[OF this lu] no_before d show "chunk_hi b d \<noteq> chunk_lo b u"
      by auto
  qed
  have L': "layout b (insert u (set F)) (set U - {u})"
    by (rule layout_add_free[OF L u na nb refl refl])
  have u_new: "u \<notin> set F"
  proof
    assume d: "u \<in> set F"
    from na[OF d] nb[OF d] layout_FU[OF L d u] show False
      unfolding apart_def using chunk_lo_le_hi[of b u] by auto
  qed
  have dU': "distinct (chunk_list_remove U (start u))"
    by (rule chunk_list_remove_distinct[OF dU])
  show ?thesis
  proof (cases "length F + 1 \<ge> MICRO_ARENA_MAX_NUM_CHUNKS")
    case True
    then have "snd (chunk_list_add F (start u) (size_c u)) = F"
      by (simp add: chunk_list_add_def)
    moreover have "layout b (set F) (set (chunk_list_remove U (start u)))"
      by (rule layout_mono[OF L subset_refl chunk_list_remove_subset])
    ultimately show ?thesis using dF dU' by (simp add: dirs_inv_def)
  next
    case False
    then have "snd (chunk_list_add F (start u) (size_c u)) = F @ [u]"
      by (simp add: chunk_list_add_def)
    moreover have "layout b (set (F @ [u])) (set (chunk_list_remove U (start u)))"
      using layout_mono[OF L' subset_refl remove_used_subset[OF I u]] by simp
    ultimately show ?thesis using dF dU' u_new by (simp add: dirs_inv_def)
  qed
qed

lemma arena_inv_free:
  assumes I: "arena_inv ma"
  shows "arena_inv (arena_free ma ptr)"
proof (cases "chunk_list_get (used_chunks ma) ptr")
  case None
  with I show ?thesis by (simp add: arena_free_def)
next
  case (Some ui)
  note get = this
  define u where "u = used_chunks ma ! ui"
  from chunk_list_get_Some[OF get] have u: "u \<in> set (used_chunks ma)"
    by (simp add: u_def)
  from I have D: "dirs_inv (mem_addr ma) (free_chunks ma) (used_chunks ma)"
    by (simp add: arena_inv_dirs)
  obtain a b where ab: "free_neighbours (free_chunks ma) u 0 (None, None) = (a, b)"
    by (cases "free_neighbours (free_chunks ma) u 0 (None, None)")
  note nb = free_neighbours_sets[OF ab]
  show ?thesis
  proof (cases a)
    case None
    note a = this
    show ?thesis
    proof (cases b)
      case None
      from nb[unfolded a None option.case] have c: "\<forall>d \<in> set (free_chunks ma). start d \<noteq> start u + size_c u"
        "\<forall>d \<in> set (free_chunks ma). start u \<noteq> start d + size_c d" by blast+
      note R = dirs_inv_neither[OF D u c]
      from ab a None have "free_neighbours (free_chunks ma) u 0 (None, None) = (None, None)"
        by simp
      with R get show ?thesis
        by (simp add: arena_free_def arena_inv_dirs u_def[symmetric])
    next
      case (Some bi)
      from nb[unfolded a Some option.case] have c: "\<forall>d \<in> set (free_chunks ma). start d \<noteq> start u + size_c u"
        "bi < length (free_chunks ma)"
        "start u = start (free_chunks ma ! bi) + size_c (free_chunks ma ! bi)" by blast+
      note R = dirs_inv_before[OF D u c(2) c(3) c(1)]
      from ab a Some have "free_neighbours (free_chunks ma) u 0 (None, None) = (None, Some bi)"
        by simp
      with R get show ?thesis
        by (simp add: arena_free_def arena_inv_dirs u_def[symmetric] Let_def)
    qed
  next
    case (Some ai)
    note a = this
    show ?thesis
    proof (cases b)
      case None
      from nb[unfolded a None option.case] have c: "ai < length (free_chunks ma)"
        "start (free_chunks ma ! ai) = start u + size_c u"
        "\<forall>d \<in> set (free_chunks ma). start u \<noteq> start d + size_c d" by blast+
      note R = dirs_inv_after[OF D u c]
      from ab a None have "free_neighbours (free_chunks ma) u 0 (None, None) = (Some ai, None)"
        by simp
      with R get c(1) show ?thesis
        by (simp add: arena_free_def arena_inv_dirs u_def[symmetric] Let_def)
    next
      case (Some bi)
      from nb[unfolded a Some option.case] have c: "bi < length (free_chunks ma)" by blast
      note R = dirs_inv_both[OF D c, of "size_c (free_chunks ma ! bi) + (size_c u + size_c (free_chunks ma ! ai))" "start u"]
      from ab a Some have "free_neighbours (free_chunks ma) u 0 (None, None) = (Some ai, Some bi)"
        by simp
      with R get c show ?thesis
        by (simp add: arena_free_def arena_inv_dirs u_def[symmetric] Let_def)
    qed
  qed
qed

lemma arena_inv_init: "arena_inv (arena_init ma)"
proof -
  have "chunk_hi (mem_addr ma) \<lparr>start = mem_addr ma, size_c = 4096\<rparr> \<le> 4096"
    by (simp add: chunk_hi_def chunk_lo_def)
  then have "layout (mem_addr ma) {\<lparr>start = mem_addr ma, size_c = 4096\<rparr>} {}"
    by (simp add: layout_def MICRO_ARENA_STACK_MEM_SIZE_def)
  then show ?thesis
    by (simp add: arena_inv_def dirs_inv_def arena_init_def chunk_list_reset_def chunk_list_add_def
        MICRO_ARENA_MAX_NUM_CHUNKS_def MICRO_ARENA_STACK_MEM_SIZE_def)
qed

lemma store_byte_dirs [simp]:
  "mem_addr (store_byte ma p v) = mem_addr ma"
  "free_chunks (store_byte ma p v) = free_chunks ma"
  "used_chunks (store_byte ma p v) = used_chunks ma"
  by (simp_all add: store_byte_def Let_def)

lemma fold_store_dirs:
  "mem_addr (fold (\<lambda>i a. store_byte a (p i) (v i a)) is ma) = mem_addr ma \<and>
   free_chunks (fold (\<lambda>i a. store_byte a (p i) (v i a)) is ma) = free_chunks ma \<and>
   used_chunks (fold (\<lambda>i a. store_byte a (p i) (v i a)) is ma) = used_chunks ma"
  by (induction "is" arbitrary: ma) simp_all

lemma arena_inv_fold_store:
  "arena_inv (fold (\<lambda>i a. store_byte a (p i) (v i a)) is ma) \<longleftrightarrow> arena_inv ma"
  by (simp add: arena_inv_def dirs_inv_def fold_store_dirs)

lemma arena_inv_calloc:
  assumes "arena_inv ma" "sz * nmemb \<noteq> 0"
  shows "arena_inv (snd (arena_calloc ma nmemb sz))"
proof -
  obtain m ma1 where m: "arena_malloc ma (sz * nmemb) = (m, ma1)"
    by (cases "arena_malloc ma (sz * nmemb)")
  with arena_inv_malloc[OF assms] have "arena_inv ma1" by simp
  with m show ?thesis
    using arena_inv_fold_store[of "\<lambda>i. m + of_nat i" "\<lambda>i a. 0" _ ma1]
    by (simp add: arena_calloc_def)
qed

lemma arena_inv_realloc:
  assumes "arena_inv ma" "sz \<noteq> 0"
  shows "arena_inv (snd (arena_realloc ma ptr sz))"
proof -
  obtain m ma1 where m: "arena_malloc ma sz = (m, ma1)"
    by (cases "arena_malloc ma sz")
  with arena_inv_malloc[OF assms] have I1: "arena_inv ma1" by simp
  have "\<And>n. arena_inv (arena_free
      (fold (\<lambda>i a. store_byte a (m + of_nat i) (load_byte a (ptr + of_nat i))) [0..<n] ma1) ptr)"
    using arena_inv_fold_store[of "\<lambda>i. m + of_nat i" "\<lambda>i a. load_byte a (ptr + of_nat i)" _ ma1] I1
    by (intro arena_inv_free) simp
  with m I1 assms(1) show ?thesis
    by (simp add: arena_realloc_def Let_def split: option.splits)
qed

lemma perform_inv:
  assumes "arena_inv ma" "\<not> zero_request r"
  shows "\<exists>ma'. perform r (Some ma) = Some ma' \<and> arena_inv ma'"
proof (cases r)
  case Init
  then show ?thesis by (simp add: micro_arena_init_def arena_inv_init)
next
  case (Malloc sz)
  with assms arena_inv_malloc[of ma sz] show ?thesis
    by (auto simp: micro_arena_malloc_def split: prod.splits)
next
  case (Free ptr)
  with assms arena_inv_free[of ma ptr] show ?thesis
    by (simp add: micro_arena_free_def)
next
  case (Calloc nmemb sz)
  with assms arena_inv_calloc[of ma sz nmemb] show ?thesis
    by (auto simp: micro_arena_calloc_def split: prod.splits)
next
  case (Realloc ptr sz)
  with assms arena_inv_realloc[of ma sz ptr] show ?thesis
    by (auto simp: micro_arena_realloc_def split: prod.splits)
next
  case (Reallocarray ptr nmemb sz)
  with assms arena_inv_realloc[of ma "nmemb * sz" ptr] show ?thesis
    by (auto simp: micro_arena_reallocarray_def micro_arena_realloc_def split: prod.splits)
qed

lemma run_inv:
  assumes "arena_inv ma" "\<forall>r \<in> set rs. \<not> zero_request r"
  shows "\<exists>ma'. run rs (Some ma) = Some ma' \<and> arena_inv ma'"
  using assms
proof (induction rs arbitrary: ma)
  case Nil
  then show ?case by (simp add: run_def)
next
  case (Cons r rs)
  from perform_inv[OF Cons.prems(1), of r] Cons.prems(2)
  obtain ma1 where s: "perform r (Some ma) = Some ma1" and I1: "arena_inv ma1" by auto
  from Cons.IH[OF I1] Cons.prems(2) s show ?case by (simp add: run_def)
qed


lemma arena_inv_free_starts: "arena_inv ma \<Longrightarrow> distinct (map start (free_chunks ma))"
  using dirs_inv_free_starts by (simp add: arena_inv_dirs)

lemma arena_inv_used_starts: "arena_inv ma \<Longrightarrow> distinct (map start (used_chunks ma))"
  using dirs_inv_used_starts by (simp add: arena_inv_dirs)

text \<open>
  Claim C3, as the code has it. The claim says that in every reachable state the starts
  within a directory are pairwise different. Two allocations of zero bytes right after
  \<^verbatim>\<open>micro_arena_init\<close> both return the start of the buffer and leave two used entries
  with that start.
\<close>

theorem zero_size_duplicates:
  "run [Malloc 0, Malloc 0] (micro_arena_init (Some example_arena)) =
     Some (example_arena\<lparr>free_chunks := [\<lparr>start = 0x10000, size_c = 4096\<rparr>],
                        used_chunks := [\<lparr>start = 0x10000, size_c = 0\<rparr>, \<lparr>start = 0x10000, size_c = 0\<rparr>]\<rparr>)"
  by (simp add: run_def micro_arena_init_def micro_arena_malloc_def example_arena_def arena_init_def
      chunk_list_reset_def chunk_list_add_def MICRO_ARENA_MAX_NUM_CHUNKS_def
      MICRO_ARENA_STACK_MEM_SIZE_def arena_malloc_def arena_malloc_from.simps Let_def)

text \<open>
  Claim C3, amended. After \<^verbatim>\<open>micro_arena_init\<close> and any sequence of calls of the
  public operations none of which requests zero bytes, the arena is still there and no two
  entries of its free directory have the same start, nor do two entries of its used
  directory.
\<close>

theorem starts_unique:
  assumes "\<forall>r \<in> set rs. \<not> zero_request r"
  shows "\<exists>ma'. run rs (micro_arena_init (Some ma)) = Some ma' \<and>
           distinct (map start (free_chunks ma')) \<and> distinct (map start (used_chunks ma'))"
proof -
  from run_inv[OF arena_inv_init assms, of ma] obtain ma'
    where "run rs (Some (arena_init ma)) = Some ma'" "arena_inv ma'" by blast
  then show ?thesis
    using arena_inv_free_starts[of ma'] arena_inv_used_starts[of ma']
    by (auto simp: micro_arena_init_def)
qed

theorem starts_unique_witness:
  "\<not> zero_request (Malloc 40) \<and> \<not> zero_request (Calloc 2 5) \<and>
   \<not> zero_request (Realloc 0x10000 8) \<and> \<not> zero_request (Free 0x10028) \<and>
   (\<exists>ma'. run [Malloc 40, Calloc 2 5, Realloc 0x10000 8, Free 0x10028]
            (micro_arena_init (Some example_arena)) = Some ma' \<and>
      distinct (map start (free_chunks ma')) \<and> distinct (map start (used_chunks ma')))"
  using starts_unique [of "[Malloc 40, Calloc 2 5, Realloc 0x10000 8, Free 0x10028]" example_arena]
  by simp

subsection \<open>Initialisation\<close>

text \<open>
  Claim C6. After \<^verbatim>\<open>micro_arena_init\<close> on any arena, whatever its directories held
  before (so also on an arena that was initialised and used already), the free directory
  is exactly one entry that starts at the buffer and has the size of the buffer, and the
  used directory is empty; the buffer itself is not touched.
\<close>

theorem init_single_free_entry:
  "micro_arena_init (Some ma) =
     Some (ma\<lparr>free_chunks := [\<lparr>start = mem_addr ma, size_c = MICRO_ARENA_STACK_MEM_SIZE\<rparr>],
              used_chunks := []\<rparr>)"
  by (simp add: micro_arena_init_def arena_init_def chunk_list_reset_def chunk_list_add_def
      MICRO_ARENA_MAX_NUM_CHUNKS_def)

subsection \<open>Release of an unknown handle\<close>

text \<open>
  Claim C7. When no entry of the used directory starts at \<open>ptr\<close>,
  \<^verbatim>\<open>micro_arena_free\<close> returns the arena as it was: both directories keep their
  lengths and contents.
\<close>

theorem free_unknown_ptr_noop:
  assumes "ptr \<notin> start ` set (used_chunks ma)"
  shows "micro_arena_free (Some ma) ptr = Some ma"
proof -
  from assms have "chunk_list_get (used_chunks ma) ptr = None"
    by (simp add: chunk_list_get_None_iff)
  then show ?thesis
    by (simp add: micro_arena_free_def arena_free_def)
qed

theorem free_unknown_ptr_noop_witness:
  "0x10029 \<notin> start ` set (used_chunks neighbours_arena) \<and>
   micro_arena_free (Some neighbours_arena) 0x10029 = Some neighbours_arena"
  using free_unknown_ptr_noop [where ma = neighbours_arena and ptr = "0x10029"]
  by (simp add: neighbours_arena_def)

subsection \<open>Capacity of a directory\<close>

text \<open>
  Claim C9. \<^verbatim>\<open>micro_arena_chunk_list_add\<close> on a directory returns the null slot exactly
  when \<open>len + 1 \<ge> MICRO_ARENA_MAX_NUM_CHUNKS\<close>, and then the directory is unchanged;
  otherwise it returns the slot at the old \<open>len\<close> and the directory is the old one with
  the new entry appended. A directory of at most \<open>MICRO_ARENA_MAX_NUM_CHUNKS - 1\<close>
  entries therefore never grows beyond that number.
\<close>

theorem chunk_list_add_capacity:
  "(fst (micro_arena_chunk_list_add (Some cl) st sz) = None
      \<longleftrightarrow> length cl + 1 \<ge> MICRO_ARENA_MAX_NUM_CHUNKS) \<and>
   (length cl + 1 \<ge> MICRO_ARENA_MAX_NUM_CHUNKS
      \<longrightarrow> micro_arena_chunk_list_add (Some cl) st sz = (None, Some cl)) \<and>
   (length cl + 1 < MICRO_ARENA_MAX_NUM_CHUNKS
      \<longrightarrow> micro_arena_chunk_list_add (Some cl) st sz
           = (Some (length cl), Some (cl @ [\<lparr>start = st, size_c = sz\<rparr>]))) \<and>
   (length cl \<le> MICRO_ARENA_MAX_NUM_CHUNKS - 1
      \<longrightarrow> (\<exists>cl'. snd (micro_arena_chunk_list_add (Some cl) st sz) = Some cl'
                \<and> length cl' \<le> MICRO_ARENA_MAX_NUM_CHUNKS - 1))"
  by (auto simp: micro_arena_chunk_list_add_def chunk_list_add_def)

theorem chunk_list_add_capacity_witness:
  "length (replicate 1023 \<lparr>start = 7, size_c = 1\<rparr>) + 1 \<ge> MICRO_ARENA_MAX_NUM_CHUNKS \<and>
   micro_arena_chunk_list_add (Some (replicate 1023 \<lparr>start = 7, size_c = 1\<rparr>)) 8 2
     = (None, Some (replicate 1023 \<lparr>start = 7, size_c = 1\<rparr>)) \<and>
   length [\<lparr>start = 7, size_c = 1\<rparr>] + 1 < MICRO_ARENA_MAX_NUM_CHUNKS \<and>
   micro_arena_chunk_list_add (Some [\<lparr>start = 7, size_c = 1\<rparr>]) 8 2
     = (Some 1, Some [\<lparr>start = 7, size_c = 1\<rparr>, \<lparr>start = 8, size_c = 2\<rparr>])"
  using chunk_list_add_capacity [of "replicate 1023 \<lparr>start = 7, size_c = 1\<rparr>" 8 2]
    chunk_list_add_capacity [of "[\<lparr>start = 7, size_c = 1\<rparr>]" 8 2]
  by (simp add: MICRO_ARENA_MAX_NUM_CHUNKS_def)

subsection \<open>Null arena pointer\<close>

text \<open>
  Claim C10. With a null arena pointer, \<^verbatim>\<open>micro_arena_init\<close> and \<^verbatim>\<open>micro_arena_free\<close>
  return at once, and \<^verbatim>\<open>micro_arena_malloc\<close>, \<^verbatim>\<open>micro_arena_calloc\<close>,
  \<^verbatim>\<open>micro_arena_realloc\<close> and \<^verbatim>\<open>micro_arena_reallocarray\<close> return the null pointer,
  whatever the other arguments are; there is no arena after the call either.
\<close>

theorem null_arena_noop:
  "micro_arena_init None = None \<and>
   micro_arena_free None ptr = None \<and>
   micro_arena_malloc None sz = (NULL, None) \<and>
   micro_arena_calloc None nmemb sz = (NULL, None) \<and>
   micro_arena_realloc None ptr sz = (NULL, None) \<and>
   micro_arena_reallocarray None ptr nmemb sz = (NULL, None)"
  by (simp add: micro_arena_init_def micro_arena_free_def micro_arena_malloc_def
      micro_arena_calloc_def micro_arena_realloc_def micro_arena_reallocarray_def)

end
